theory Spec2Isabelle
  imports Complex_Main "HOL-Library.Product_Lexorder" "HOL-Library.Multiset"
begin

section \<open>Tensor entries\<close>

text \<open>
  An entry of a floating-point tensor.  The special values of the number format are kept
  (\<open>NaN\<close>, the two infinities); a finite entry is a real number and an operation on finite
  entries returns the exact result.  Rounding, underflow, overflow and the sign of zero
  are therefore not part of the model: where the number format would round a result, or
  turn a result beyond its largest finite value into an infinity, the model keeps the
  exact finite value.  Policy values held in the parameter tensors (temperature, top_p,
  ...) are finite and are written as \<open>real\<close>.
\<close>

datatype fl = NaN | NInf | Fin real | PInf

fun fneg :: "fl \<Rightarrow> fl" where
  "fneg NaN = NaN"
| "fneg NInf = PInf"
| "fneg PInf = NInf"
| "fneg (Fin x) = Fin (- x)"

fun fadd :: "fl \<Rightarrow> fl \<Rightarrow> fl" where
  "fadd (Fin x) (Fin y) = Fin (x + y)"
| "fadd NaN _ = NaN"
| "fadd _ NaN = NaN"
| "fadd PInf NInf = NaN"
| "fadd NInf PInf = NaN"
| "fadd PInf _ = PInf"
| "fadd _ PInf = PInf"
| "fadd NInf _ = NInf"
| "fadd _ NInf = NInf"

definition fsub :: "fl \<Rightarrow> fl \<Rightarrow> fl" where
  "fsub a b = fadd a (fneg b)"

fun fmul :: "fl \<Rightarrow> fl \<Rightarrow> fl" where
  "fmul (Fin x) (Fin y) = Fin (x * y)"
| "fmul NaN _ = NaN"
| "fmul _ NaN = NaN"
| "fmul PInf (Fin y) = (if y = 0 then NaN else if 0 < y then PInf else NInf)"
| "fmul NInf (Fin y) = (if y = 0 then NaN else if 0 < y then NInf else PInf)"
| "fmul (Fin x) PInf = (if x = 0 then NaN else if 0 < x then PInf else NInf)"
| "fmul (Fin x) NInf = (if x = 0 then NaN else if 0 < x then NInf else PInf)"
| "fmul PInf PInf = PInf"
| "fmul NInf NInf = PInf"
| "fmul PInf NInf = NInf"
| "fmul NInf PInf = NInf"

fun fdiv :: "fl \<Rightarrow> fl \<Rightarrow> fl" where
  "fdiv (Fin x) (Fin y) =
     (if y = 0 then (if x = 0 then NaN else if 0 < x then PInf else NInf) else Fin (x / y))"
| "fdiv NaN _ = NaN"
| "fdiv _ NaN = NaN"
| "fdiv (Fin x) PInf = Fin 0"
| "fdiv (Fin x) NInf = Fin 0"
| "fdiv PInf (Fin y) = (if 0 \<le> y then PInf else NInf)"
| "fdiv NInf (Fin y) = (if 0 \<le> y then NInf else PInf)"
| "fdiv PInf PInf = NaN"
| "fdiv PInf NInf = NaN"
| "fdiv NInf PInf = NaN"
| "fdiv NInf NInf = NaN"

text \<open>Comparisons: every comparison with \<open>NaN\<close> is false.\<close>

fun flt :: "fl \<Rightarrow> fl \<Rightarrow> bool" where
  "flt (Fin x) (Fin y) = (x < y)"
| "flt NaN _ = False"
| "flt _ NaN = False"
| "flt NInf NInf = False"
| "flt NInf _ = True"
| "flt PInf _ = False"
| "flt (Fin x) PInf = True"
| "flt (Fin x) NInf = False"

fun fle :: "fl \<Rightarrow> fl \<Rightarrow> bool" where
  "fle (Fin x) (Fin y) = (x \<le> y)"
| "fle NaN _ = False"
| "fle _ NaN = False"
| "fle NInf _ = True"
| "fle PInf PInf = True"
| "fle PInf _ = False"
| "fle (Fin x) PInf = True"
| "fle (Fin x) NInf = False"

definition fgt :: "fl \<Rightarrow> fl \<Rightarrow> bool" where
  "fgt a b = flt b a"

definition fge :: "fl \<Rightarrow> fl \<Rightarrow> bool" where
  "fge a b = fle b a"

fun fabs :: "fl \<Rightarrow> fl" where
  "fabs NaN = NaN"
| "fabs NInf = PInf"
| "fabs PInf = PInf"
| "fabs (Fin x) = Fin \<bar>x\<bar>"

fun fexp :: "fl \<Rightarrow> fl" where
  "fexp NaN = NaN"
| "fexp NInf = Fin 0"
| "fexp PInf = PInf"
| "fexp (Fin x) = Fin (exp x)"

fun flog :: "fl \<Rightarrow> fl" where
  "flog NaN = NaN"
| "flog NInf = NaN"
| "flog PInf = PInf"
| "flog (Fin x) = (if x < 0 then NaN else if x = 0 then NInf else Fin (ln x))"

fun fsqrt :: "fl \<Rightarrow> fl" where
  "fsqrt NaN = NaN"
| "fsqrt NInf = NaN"
| "fsqrt PInf = PInf"
| "fsqrt (Fin x) = (if x < 0 then NaN else Fin (sqrt x))"

text \<open>\<open>torch.min\<close> of two tensors, entry by entry: \<open>NaN\<close> propagates.\<close>

definition fmin :: "fl \<Rightarrow> fl \<Rightarrow> fl" where
  "fmin a b = (if a = NaN \<or> b = NaN then NaN else if flt b a then b else a)"

text \<open>
  The order used by \<open>torch.sort\<close>, \<open>torch.topk\<close>, \<open>argmax\<close> and \<open>max\<close>:
  \<open>-inf\<close> is least and \<open>NaN\<close> counts as the greatest value.
\<close>

fun sort_key_fl :: "fl \<Rightarrow> nat \<times> real" where
  "sort_key_fl NInf = (0, 0)"
| "sort_key_fl (Fin x) = (1, x)"
| "sort_key_fl PInf = (2, 0)"
| "sort_key_fl NaN = (3, 0)"

text \<open>The key of the descending order.\<close>

fun sort_key_desc :: "fl \<Rightarrow> nat \<times> real" where
  "sort_key_desc NInf = (3, 0)"
| "sort_key_desc (Fin x) = (2, - x)"
| "sort_key_desc PInf = (1, 0)"
| "sort_key_desc NaN = (0, 0)"

section \<open>Errors\<close>

datatype error =
    IndexError
  | KeyError
  | TypeError
  | AttributeError
  | AssertionError
  | RuntimeError
  | ValueError

section \<open>The batch descriptor\<close>

datatype SamplingType = GREEDY | RANDOM | RANDOM_SEED | BEAM

record SamplingParams =
  min_tokens :: int
  all_stop_token_ids :: "nat list"
  best_of :: nat
  logprobs :: "nat option"
  prompt_logprobs :: "nat option"
  use_beam_search :: bool
  sampling_type :: SamplingType

record SequenceData =
  prompt_token_ids :: "nat list"
  output_token_ids_array :: "nat list"
  cumulative_logprob :: fl
  num_computed_tokens :: nat

record SequenceGroupToSample =
  seq_ids :: "nat list"
  sampling_params :: SamplingParams
  seq_data :: "nat \<rightharpoonup> SequenceData"
  is_prompt :: bool
  do_sample :: bool
  query_len :: "nat option"
  sample_indices :: "nat list"
  prompt_logprob_indices :: "nat list"

section \<open>Sample log-probabilities\<close>

text \<open>\<open>Logprob(logprob, rank=None, decoded_token=None)\<close>.\<close>

record Logprob =
  logprob :: fl
  rank :: "nat option"
  decoded_token :: "string option"

definition Logprob1 :: "fl \<Rightarrow> Logprob" where
  "Logprob1 v = \<lparr>logprob = v, rank = None, decoded_token = None\<rparr>"

definition Logprob2 :: "fl \<times> nat \<Rightarrow> Logprob" where
  "Logprob2 lr = \<lparr>logprob = fst lr, rank = Some (snd lr), decoded_token = None\<rparr>"

text \<open>Python's \<open>xs[a:a + n]\<close> and \<open>xs[i]\<close>.\<close>

definition slice :: "'a list \<Rightarrow> nat \<Rightarrow> nat \<Rightarrow> 'a list" where
  "slice xs a n = take n (drop a xs)"

definition item :: "'a list \<Rightarrow> nat \<Rightarrow> error + 'a" where
  "item xs i = (if i < length xs then Inr (xs ! i) else Inl IndexError)"

text \<open>A tensor that is \<open>None\<close> cannot be subscripted.\<close>

definition tensor_of :: "'a option \<Rightarrow> error + 'a" where
  "tensor_of t = (case t of None \<Rightarrow> Inl TypeError | Some x \<Rightarrow> Inr x)"

definition bind :: "error + 'a \<Rightarrow> ('a \<Rightarrow> error + 'b) \<Rightarrow> error + 'b" where
  "bind m f = (case m of Inl e \<Rightarrow> Inl e | Inr x \<Rightarrow> f x)"

text \<open>\<open>dict.update\<close> with the pairs of a \<open>zip\<close>, in order: a later pair wins.\<close>

fun dict_update :: "('k \<rightharpoonup> 'v) \<Rightarrow> ('k \<times> 'v) list \<Rightarrow> ('k \<rightharpoonup> 'v)" where
  "dict_update d [] = d"
| "dict_update d ((k, v) # kvs) = dict_update (d(k \<mapsto> v)) kvs"

text \<open>
  The body of the loop over \<open>enumerate(zip(next_token_ids, parent_seq_ids))\<close> in the
  branch of \<open>_get_sampled_logprob_if_needed\<close> that reads the tensors.
\<close>

definition sampled_logprobs_dict ::
  "nat option \<Rightarrow> fl list \<Rightarrow> nat list \<Rightarrow> nat list list option \<Rightarrow> fl list list option \<Rightarrow> nat
     \<Rightarrow> nat \<times> nat \<times> nat \<Rightarrow> error + (nat \<rightharpoonup> Logprob)" where
  "sampled_logprobs_dict num_logprobs selected_logprob_items rank_items top_token_ids
      top_logprobs top_logprob_idx e =
     (case e of (idx, next_token_id, parent_id) \<Rightarrow>
      bind (item selected_logprob_items idx) (\<lambda>lp.
      bind (item rank_items idx) (\<lambda>rk.
      let d = [next_token_id \<mapsto> (lp, rk)] in
      bind (case num_logprobs of
              None \<Rightarrow> Inr d
            | Some n \<Rightarrow>
                if 0 < n then
                  bind (tensor_of top_token_ids) (\<lambda>tt.
                  bind (item tt (top_logprob_idx + parent_id)) (\<lambda>ids_row.
                  bind (tensor_of top_logprobs) (\<lambda>tl.
                  bind (item tl (top_logprob_idx + parent_id)) (\<lambda>probs_row.
                  Inr (dict_update d
                         (zip (take n ids_row) (zip (take n probs_row) [1 ..< n + 1])))))))
                else Inr d)
        (\<lambda>d'. Inr (map_option Logprob2 \<circ> d')))))"

fun mapM :: "('a \<Rightarrow> error + 'b) \<Rightarrow> 'a list \<Rightarrow> error + 'b list" where
  "mapM f [] = Inr []"
| "mapM f (x # xs) = bind (f x) (\<lambda>y. bind (mapM f xs) (\<lambda>ys. Inr (y # ys)))"

definition get_sampled_logprob_if_needed ::
  "SequenceGroupToSample \<Rightarrow> nat list \<times> nat list \<Rightarrow> fl list option \<Rightarrow> nat list option
     \<Rightarrow> nat list list option \<Rightarrow> fl list list option \<Rightarrow> nat \<Rightarrow> nat
     \<Rightarrow> error + ((nat \<rightharpoonup> Logprob) list \<times> nat \<times> nat)" where
  "get_sampled_logprob_if_needed seq_group sample_result selected_logprobs ranks
      top_token_ids top_logprobs selected_logprobs_idx top_logprob_idx =
     (let num_logprobs = logprobs (sampling_params seq_group);
          next_token_ids = fst sample_result;
          parent_seq_ids = snd sample_result
      in if do_sample seq_group then
           if \<not> (0 < length next_token_ids) then Inl AssertionError
           else
             bind
               (if num_logprobs = None \<and> \<not> use_beam_search (sampling_params seq_group) then
                  Inr (map (\<lambda>next_token_id. [next_token_id \<mapsto> Logprob1 PInf]) next_token_ids)
                else
                  bind (tensor_of selected_logprobs) (\<lambda>sl.
                  bind (tensor_of ranks) (\<lambda>rs.
                  mapM (sampled_logprobs_dict num_logprobs
                          (slice sl selected_logprobs_idx (length next_token_ids))
                          (slice rs selected_logprobs_idx (length next_token_ids))
                          top_token_ids top_logprobs top_logprob_idx)
                       (zip [0 ..< length next_token_ids]
                          (zip next_token_ids parent_seq_ids)))))
               (\<lambda>sampled_logprobs.
                  Inr (sampled_logprobs,
                       top_logprob_idx + length (seq_ids seq_group),
                       selected_logprobs_idx + length next_token_ids))
         else Inr ([], top_logprob_idx, selected_logprobs_idx))"

text \<open>A decode-phase group of one sequence with one output token, sampled greedily.\<close>

definition params0 :: SamplingParams where
  "params0 = \<lparr>min_tokens = 0, all_stop_token_ids = [], best_of = 1, logprobs = None,
     prompt_logprobs = None, use_beam_search = False, sampling_type = GREEDY\<rparr>"

definition group0 :: SequenceGroupToSample where
  "group0 = \<lparr>seq_ids = [7], sampling_params = params0,
     seq_data = [7 \<mapsto> \<lparr>prompt_token_ids = [5], output_token_ids_array = [4],
                      cumulative_logprob = Fin 0, num_computed_tokens = 1\<rparr>],
     is_prompt = False, do_sample = True, query_len = None, sample_indices = [0],
     prompt_logprob_indices = []\<rparr>"

section \<open>Tensor helpers\<close>

text \<open>
  A parameter tensor with one entry per row.  Broadcasting accepts a tensor that has
  exactly one entry per row of the target, or a single entry for all rows.
\<close>

definition align :: "'a list \<Rightarrow> nat \<Rightarrow> error + 'a list" where
  "align ps n =
     (if length ps = n then Inr ps
      else if length ps = 1 then Inr (replicate n (hd ps))
      else Inl RuntimeError)"

text \<open>
  \<open>argmax\<close> along a row: the first index that holds the greatest value; an empty row
  has no \<open>argmax\<close>.
\<close>

fun argmax_scan :: "nat \<times> fl \<Rightarrow> (nat \<times> fl) list \<Rightarrow> nat \<times> fl" where
  "argmax_scan b [] = b"
| "argmax_scan b (e # es) =
     argmax_scan (if sort_key_fl (snd b) < sort_key_fl (snd e) then e else b) es"

definition argmax :: "fl list \<Rightarrow> error + nat" where
  "argmax xs =
     (case xs of
        [] \<Rightarrow> Inl IndexError
      | x # r \<Rightarrow> Inr (fst (argmax_scan (0, x) (zip [1 ..< length xs] r))))"

section \<open>Ranks of the chosen tokens\<close>

text \<open>
  \<open>_get_ranks\<close>: \<open>vals = x[arange(len(x)), indices]\<close>, then per row the number of
  entries strictly greater than the chosen one, plus one.
\<close>

definition get_ranks :: "fl list list \<Rightarrow> nat list \<Rightarrow> error + nat list" where
  "get_ranks x indices =
     bind (case align indices (length x) of Inl e \<Rightarrow> Inl IndexError | Inr is \<Rightarrow> Inr is)
       (\<lambda>is.
     bind (mapM (\<lambda>(row, i). item row i) (zip x is)) (\<lambda>vals.
     Inr (map (\<lambda>(row, v). length (filter (\<lambda>e. fgt e v) row) + 1) (zip x vals))))"

section \<open>Greedy sampling and the pinned probabilities\<close>

text \<open>\<open>probs[sample_indices, :] = 0\<close>.\<close>

fun zero_rows :: "fl list list \<Rightarrow> nat list \<Rightarrow> error + fl list list" where
  "zero_rows probs [] = Inr probs"
| "zero_rows probs (r # rs) =
     (if r < length probs
      then zero_rows (probs[r := replicate (length (probs ! r)) (Fin 0)]) rs
      else Inl IndexError)"

text \<open>\<open>t[rows, cols] = v\<close> for index lists of equal length, pair by pair.\<close>

fun index_put :: "fl list list \<Rightarrow> (nat \<times> nat) list \<Rightarrow> fl \<Rightarrow> error + fl list list" where
  "index_put t [] v = Inr t"
| "index_put t ((r, c) # rcs) v =
     (if r < length t \<and> c < length (t ! r)
      then index_put (t[r := (t ! r)[c := v]]) rcs v
      else Inl IndexError)"

text \<open>
  \<open>_modify_greedy_probs_inplace\<close>.  Both tensors are arguments; the pair returned is
  their content after the call.
\<close>

definition modify_greedy_probs_inplace ::
  "fl list list \<Rightarrow> fl list list \<Rightarrow> nat list \<Rightarrow> nat list
     \<Rightarrow> error + (fl list list \<times> fl list list)" where
  "modify_greedy_probs_inplace logprobs' probs sample_indices' greedy_samples =
     bind (zero_rows probs sample_indices') (\<lambda>probs1.
     bind (case align greedy_samples (length sample_indices') of
             Inl e \<Rightarrow> Inl IndexError | Inr gs \<Rightarrow> Inr gs) (\<lambda>gs.
     bind (index_put probs1 (zip sample_indices' gs) (Fin 1)) (\<lambda>probs2.
     Inr (logprobs', probs2))))"

text \<open>
  The \<open>GREEDY\<close> branch of the first loop of \<open>_sample_with_torch\<close>:
  \<open>greedy_samples = argmax(logprobs[long_sample_indices], dim=-1)\<close>, the sampled ids stored
  in the output tensor when \<open>include_gpu_probs_tensor\<close> (here \<open>include_gpu\<close>), and the probabilities pinned when
  \<open>modify_greedy_probs\<close>.  The result is the greedy samples, the two tensors after the
  branch, and the rows of \<open>sampled_token_ids_tensor\<close> that were written.
\<close>

definition sample_with_torch_greedy ::
  "bool \<Rightarrow> bool \<Rightarrow> fl list list \<Rightarrow> fl list list \<Rightarrow> nat list
     \<Rightarrow> error + (nat list \<times> fl list list \<times> fl list list \<times> (nat \<rightharpoonup> nat))" where
  "sample_with_torch_greedy include_gpu modify_greedy_probs logprobs' probs
      long_sample_indices =
     bind (mapM (\<lambda>i. bind (item logprobs' i) argmax) long_sample_indices) (\<lambda>greedy_samples.
     let sampled_token_ids_tensor =
           (if include_gpu
            then map_of (rev (zip long_sample_indices greedy_samples))
            else Map.empty)
     in bind (if modify_greedy_probs
              then modify_greedy_probs_inplace logprobs' probs long_sample_indices
                     greedy_samples
              else Inr (logprobs', probs)) (\<lambda>(logprobs2, probs2).
        Inr (greedy_samples, logprobs2, probs2, sampled_token_ids_tensor)))"

section \<open>The sampler and its cached parameter tensors\<close>

record SamplingTensors =
  temperatures :: "real list"
  top_ps :: "real list"
  top_ks :: "int list"
  top_as :: "real list"
  min_ps :: "real list"
  tfss :: "real list"
  eta_cutoffs :: "real list"
  epsilon_cutoffs :: "real list"
  typical_ps :: "real list"
  smoothing_factors :: "real list"
  smoothing_curves :: "real list"
  presence_penalties :: "real list"
  frequency_penalties :: "real list"
  repetition_penalties :: "real list"
  prompt_tokens :: "nat list list"
  output_tokens :: "nat list list"

record SamplingFlags =
  do_penalties :: bool
  do_top_p_top_k :: bool
  do_top_as :: bool
  do_min_p :: bool
  do_tfss :: bool
  do_eta_cutoffs :: bool
  do_epsilon_cutoffs :: bool
  do_typical_ps :: bool
  do_quadratic :: bool

record SamplingMetadata =
  seq_groups :: "SequenceGroupToSample list"
  reuse_sampling_tensors :: bool
  skip_sampler_cpu_output :: bool

text \<open>
  The attributes of a \<open>Sampler\<close>.  \<open>_sampling_tensors\<close> and the \<open>_do_*\<close> flags do not
  exist before the first call of \<open>_init_sampling_tensors\<close>, which sets them together.
\<close>

record Sampler =
  include_gpu_probs_tensor :: bool
  stored :: "(SamplingTensors \<times> SamplingFlags) option"

definition should_modify_greedy_probs_inplace :: "Sampler \<Rightarrow> bool" where
  "should_modify_greedy_probs_inplace self = include_gpu_probs_tensor self"

text \<open>
  \<open>_init_sampling_tensors\<close>.  \<open>SamplingTensors.from_sampling_metadata\<close> is the tensor
  builder; it is the parameter \<open>from_sampling_metadata\<close>, a function of the batch
  descriptor and the vocabulary size.
\<close>

definition init_sampling_tensors ::
  "(SamplingMetadata \<Rightarrow> nat \<Rightarrow> SamplingTensors \<times> SamplingFlags) \<Rightarrow> Sampler \<Rightarrow> nat
     \<Rightarrow> SamplingMetadata \<Rightarrow> Sampler" where
  "init_sampling_tensors from_sampling_metadata self vocab_size sampling_metadata =
     self\<lparr>stored := Some (from_sampling_metadata sampling_metadata vocab_size)\<rparr>"

text \<open>
  The first part of \<open>forward\<close>, up to the reading of the tensors and flags.  Reading
  \<open>self._do_penalties\<close> before any build raises \<open>AttributeError\<close>.
\<close>

definition forward_prepare ::
  "(SamplingMetadata \<Rightarrow> nat \<Rightarrow> SamplingTensors \<times> SamplingFlags) \<Rightarrow> Sampler \<Rightarrow> nat
     \<Rightarrow> SamplingMetadata \<Rightarrow> error + (Sampler \<times> SamplingTensors \<times> SamplingFlags)" where
  "forward_prepare from_sampling_metadata self vocab_size sampling_metadata =
     bind
       (if \<not> reuse_sampling_tensors sampling_metadata
        then Inr (init_sampling_tensors from_sampling_metadata self vocab_size
                    sampling_metadata)
        else (case stored self of
                None \<Rightarrow> Inl AttributeError
              | Some (t, f) \<Rightarrow>
                  if do_penalties f
                  then Inr (init_sampling_tensors from_sampling_metadata self vocab_size
                              sampling_metadata)
                  else Inr self))
       (\<lambda>self'. case stored self' of
                  None \<Rightarrow> Inl AssertionError
                | Some (t, f) \<Rightarrow> Inr (self', t, f))"

text \<open>Example parameter tensors for a batch of one row, with every filter off.\<close>

definition tensors0 :: SamplingTensors where
  "tensors0 = \<lparr>temperatures = [1], top_ps = [1], top_ks = [3], top_as = [0], min_ps = [0],
     tfss = [1], eta_cutoffs = [0], epsilon_cutoffs = [0], typical_ps = [1],
     smoothing_factors = [0], smoothing_curves = [1], presence_penalties = [0],
     frequency_penalties = [0], repetition_penalties = [1], prompt_tokens = [[3]],
     output_tokens = [[3]]\<rparr>"

definition flags0 :: SamplingFlags where
  "flags0 = \<lparr>do_penalties = False, do_top_p_top_k = False, do_top_as = False,
     do_min_p = False, do_tfss = False, do_eta_cutoffs = False, do_epsilon_cutoffs = False,
     do_typical_ps = False, do_quadratic = False\<rparr>"

definition metadata0 :: "bool \<Rightarrow> SamplingMetadata" where
  "metadata0 reuse = \<lparr>seq_groups = [group0], reuse_sampling_tensors = reuse,
     skip_sampler_cpu_output = False\<rparr>"

text \<open>A builder for the examples: the temperature it stores is 2.\<close>

definition build0 :: "SamplingMetadata \<Rightarrow> nat \<Rightarrow> SamplingTensors \<times> SamplingFlags" where
  "build0 md V = (tensors0\<lparr>temperatures := [2]\<rparr>, flags0)"

section \<open>Sorting and top-k\<close>

text \<open>
  \<open>torch.sort\<close> along a row returns the sorted values and, for each, the index it came
  from.  The model sorts the pairs (value, index) by the value's key; among equal values
  the order of the indices is kept (the library leaves it open).
\<close>

definition sort_pairs :: "(fl \<Rightarrow> nat \<times> real) \<Rightarrow> fl list \<Rightarrow> (fl \<times> nat) list" where
  "sort_pairs key row = sort_key (\<lambda>p. key (fst p)) (zip row [0 ..< length row])"

text \<open>\<open>torch.topk(row, k)\<close>: the \<open>k\<close> greatest values, greatest first, and their indices.\<close>

definition topk :: "fl list \<Rightarrow> nat \<Rightarrow> error + (fl list \<times> nat list)" where
  "topk row k =
     (if length row < k then Inl RuntimeError
      else Inr (take k (map fst (sort_pairs sort_key_desc row)),
                take k (map snd (sort_pairs sort_key_desc row))))"

section \<open>Beam search\<close>

text \<open>
  \<open>seq_group_logprobs + cumulative_logprobs.unsqueeze(dim=1)\<close>: the rows of the slice,
  each shifted by the cumulative log-probability of its parent.  Broadcasting wants as
  many rows as parents, or one of the two to be 1.
\<close>

definition add_cumulative :: "fl list list \<Rightarrow> fl list \<Rightarrow> error + fl list list" where
  "add_cumulative rows cum =
     (if length rows = length cum then Inr (map (\<lambda>(r, c). map (\<lambda>v. fadd v c) r) (zip rows cum))
      else if length rows = 1 then Inr (map (\<lambda>c. map (\<lambda>v. fadd v c) (hd rows)) cum)
      else if length cum = 1 then Inr (map (map (\<lambda>v. fadd v (hd cum))) rows)
      else Inl RuntimeError)"

text \<open>
  The body of the loop of \<open>_beam_search_sample\<close> for a group that is sampled;
  \<open>sample_idx\<close> is the row where the group's rows start.  The rows of a tensor have one
  length, the vocabulary size.
\<close>

definition beam_search_group ::
  "SequenceGroupToSample \<Rightarrow> fl list list \<Rightarrow> nat \<Rightarrow> error + (nat list \<times> nat list)" where
  "beam_search_group seq_group logprobs' sample_idx =
     (let num_parent_seqs = length (seq_ids seq_group);
          beam_width = best_of (sampling_params seq_group);
          seq_group_logprobs = slice logprobs' sample_idx num_parent_seqs
      in if is_prompt seq_group then
           if num_parent_seqs \<noteq> 1 then Inl AssertionError
           else
             bind (item seq_group_logprobs 0) (\<lambda>row.
             bind (topk row (2 * beam_width)) (\<lambda>(_, next_token_ids).
             Inr (next_token_ids, replicate (2 * beam_width) 0)))
         else
           bind (mapM (\<lambda>seq_id. case seq_data seq_group seq_id of
                                   None \<Rightarrow> Inl KeyError
                                 | Some d \<Rightarrow> Inr (cumulative_logprob d))
                   (seq_ids seq_group)) (\<lambda>cumulative_logprobs.
           bind (add_cumulative seq_group_logprobs cumulative_logprobs) (\<lambda>shifted.
           bind (topk (concat shifted) (2 * beam_width)) (\<lambda>(_, topk_ids).
           let vocab_size = (case shifted of [] \<Rightarrow> 0 | r # _ \<Rightarrow> length r)
           in Inr (map (\<lambda>i. i mod vocab_size) topk_ids,
                   map (\<lambda>i. i div vocab_size) topk_ids)))))"

text \<open>
  \<open>_beam_search_sample\<close>: the loop over the selected groups, then the assertion that
  every row was consumed.
\<close>

fun beam_search_loop ::
  "SequenceGroupToSample list \<Rightarrow> fl list list \<Rightarrow> nat \<Rightarrow> error + (nat list \<times> nat list) list"
  where
  "beam_search_loop [] logprobs' sample_idx =
     (if sample_idx = length logprobs' then Inr [] else Inl AssertionError)"
| "beam_search_loop (seq_group # rest) logprobs' sample_idx =
     (if \<not> do_sample seq_group
      then bind (beam_search_loop rest logprobs' sample_idx) (\<lambda>results.
           Inr (([], []) # results))
      else bind (beam_search_group seq_group logprobs' sample_idx) (\<lambda>r.
           bind (beam_search_loop rest logprobs' (sample_idx + length (seq_ids seq_group)))
             (\<lambda>results. Inr (r # results))))"

definition beam_search_sample ::
  "SequenceGroupToSample list \<Rightarrow> fl list list \<Rightarrow> error + (nat list \<times> nat list) list" where
  "beam_search_sample selected_seq_groups logprobs' =
     beam_search_loop selected_seq_groups logprobs' 0"

text \<open>
  The row at which the loop reaches the group that follows the groups \<open>pre\<close>: the number
  of sequences of the sampled groups before it.
\<close>

definition rows_before :: "SequenceGroupToSample list \<Rightarrow> nat" where
  "rows_before pre = sum_list (map (\<lambda>g. length (seq_ids g)) (filter do_sample pre))"

text \<open>A prompt-phase beam-search group with beam width 2.\<close>

definition beam_group0 :: SequenceGroupToSample where
  "beam_group0 = \<lparr>seq_ids = [7],
     sampling_params = params0\<lparr>best_of := 2, use_beam_search := True, sampling_type := BEAM\<rparr>,
     seq_data = [7 \<mapsto> \<lparr>prompt_token_ids = [5], output_token_ids_array = [],
                      cumulative_logprob = Fin 0, num_computed_tokens = 0\<rparr>],
     is_prompt = True, do_sample = True, query_len = Some 1, sample_indices = [0],
     prompt_logprob_indices = []\<rparr>"

section \<open>The minimum-token gate\<close>

text \<open>
  The loop of \<open>_apply_min_tokens_penalty\<close> over the sequence groups.  It collects the
  (row, token id) pairs to penalize and counts the rows accounted for.
\<close>

fun min_tokens_loop ::
  "SequenceGroupToSample list \<Rightarrow> (nat \<times> nat) list \<Rightarrow> nat \<Rightarrow> error + ((nat \<times> nat) list \<times> nat)"
  where
  "min_tokens_loop [] logits_to_penalize logits_applied =
     Inr (logits_to_penalize, logits_applied)"
| "min_tokens_loop (seq_group # rest) logits_to_penalize logits_applied =
     (let logits_applied1 = logits_applied + length (sample_indices seq_group)
            + length (prompt_logprob_indices seq_group)
      in if \<not> do_sample seq_group then min_tokens_loop rest logits_to_penalize logits_applied1
         else
           (case sample_indices seq_group of
              [] \<Rightarrow> Inl IndexError
            | start_idx # _ \<Rightarrow>
                let token_ids_to_penalize = all_stop_token_ids (sampling_params seq_group)
                in if 0 < min_tokens (sampling_params seq_group) \<and> token_ids_to_penalize \<noteq> []
                   then
                     bind (mapM (\<lambda>(j, seq_id).
                                   case seq_data seq_group seq_id of
                                     None \<Rightarrow> Inl KeyError
                                   | Some d \<Rightarrow>
                                       Inr (j, int (length (output_token_ids_array d))
                                                 < min_tokens (sampling_params seq_group)))
                             (zip [0 ..< length (seq_ids seq_group)] (seq_ids seq_group)))
                       (\<lambda>below.
                          let seqs_to_penalize = map (\<lambda>(j, _). start_idx + j) (filter snd below)
                          in min_tokens_loop rest
                               (logits_to_penalize
                                  @ List.product seqs_to_penalize token_ids_to_penalize)
                               logits_applied1)
                   else min_tokens_loop rest logits_to_penalize logits_applied1))"

definition apply_min_tokens_penalty ::
  "fl list list \<Rightarrow> SamplingMetadata \<Rightarrow> error + fl list list" where
  "apply_min_tokens_penalty logits sampling_metadata =
     bind (min_tokens_loop (seq_groups sampling_metadata) [] 0)
       (\<lambda>(logits_to_penalize, logits_applied).
     bind (index_put logits logits_to_penalize NInf) (\<lambda>logits1.
     if logits_applied = length logits1 then Inr logits1 else Inl AssertionError))"

section \<open>Penalties\<close>

text \<open>The second dimension of a tensor's shape; every row has this length.\<close>

definition vocab_size_of :: "fl list list \<Rightarrow> nat" where
  "vocab_size_of logits = (case logits of [] \<Rightarrow> 0 | row # _ \<Rightarrow> length row)"

text \<open>
  \<open>_get_bin_counts_and_mask\<close>: per row, how often each token id below \<open>vocab_size\<close>
  occurs in the padded token list; the padding id is \<open>vocab_size\<close> itself.  \<open>scatter_add_\<close>
  rejects an id beyond the padding id and more token rows than \<open>num_seqs\<close>; rows without
  a token list count nothing.
\<close>

definition get_bin_counts_and_mask ::
  "nat list list \<Rightarrow> nat \<Rightarrow> nat \<Rightarrow> error + (nat list list \<times> bool list list)" where
  "get_bin_counts_and_mask tokens vocab_size num_seqs =
     (if num_seqs < length tokens \<or> (\<exists>row \<in> set tokens. \<exists>t \<in> set row. vocab_size < t)
      then Inl RuntimeError
      else
        let bin_counts =
              map (\<lambda>i. map (\<lambda>v. if i < length tokens then count_list (tokens ! i) v else 0)
                           [0 ..< vocab_size])
                [0 ..< num_seqs]
        in Inr (bin_counts, map (map (\<lambda>c. 0 < c)) bin_counts))"

text \<open>The three steps of \<open>_apply_penalties\<close> on one entry.\<close>

definition repetition_step :: "real \<Rightarrow> bool \<Rightarrow> bool \<Rightarrow> fl \<Rightarrow> fl" where
  "repetition_step repetition_penalty prompt_seen output_seen l =
     (let r = (if \<not> (prompt_seen \<or> output_seen) then 1 else repetition_penalty)
      in if fgt l (Fin 0) then fdiv l (Fin r) else fmul l (Fin r))"

definition frequency_step :: "real \<Rightarrow> nat \<Rightarrow> fl \<Rightarrow> fl" where
  "frequency_step frequency_penalty output_count l =
     fsub l (Fin (frequency_penalty * real output_count))"

definition presence_step :: "real \<Rightarrow> bool \<Rightarrow> fl \<Rightarrow> fl" where
  "presence_step presence_penalty output_seen l =
     fsub l (Fin (presence_penalty * (if output_seen then 1 else 0)))"

definition apply_penalties ::
  "fl list list \<Rightarrow> nat list list \<Rightarrow> nat list list \<Rightarrow> real list \<Rightarrow> real list \<Rightarrow> real list
     \<Rightarrow> error + fl list list" where
  "apply_penalties logits prompt_tokens_tensor output_tokens_tensor presence_penalties'
      frequency_penalties' repetition_penalties' =
     (let num_seqs = length logits; vocab_size = vocab_size_of logits
      in bind (get_bin_counts_and_mask prompt_tokens_tensor vocab_size num_seqs)
           (\<lambda>(_, prompt_mask).
         bind (get_bin_counts_and_mask output_tokens_tensor vocab_size num_seqs)
           (\<lambda>(output_bin_counts, output_mask).
         bind (if length repetition_penalties' = num_seqs then Inr repetition_penalties'
               else Inl IndexError) (\<lambda>rep.
         let logits1 =
               map (\<lambda>(row, r, pm, om).
                      map (\<lambda>(l, p, m). repetition_step r p m l) (zip row (zip pm om)))
                 (zip logits (zip rep (zip prompt_mask output_mask)))
         in bind (align frequency_penalties' num_seqs) (\<lambda>freq.
         let logits2 =
               map (\<lambda>(row, f, counts). map (\<lambda>(l, c). frequency_step f c l) (zip row counts))
                 (zip logits1 (zip freq output_bin_counts))
         in bind (align presence_penalties' num_seqs) (\<lambda>pres.
         Inr (map (\<lambda>(row, p, om). map (\<lambda>(l, m). presence_step p m l) (zip row om))
                (zip logits2 (zip pres output_mask)))))))))"

section \<open>Temperature scaling\<close>

text \<open>\<open>logits.div_(sampling_tensors.temperatures.unsqueeze(dim=1))\<close>.\<close>

definition apply_temperature :: "fl list list \<Rightarrow> real list \<Rightarrow> error + fl list list" where
  "apply_temperature logits temps =
     bind (align temps (length logits)) (\<lambda>ts.
     Inr (map (\<lambda>(row, t). map (\<lambda>l. fdiv l (Fin t)) row) (zip logits ts)))"

text \<open>Modelled from the spec: the \<open>temperatures\<close> column built by
  \<open>SamplingTensors.from_sampling_metadata\<close>, a function that is not among the sources at
  hand.  The builder expands the per-request policy temperatures into one entry per row.
  Temperature 0 is reserved for greedy rows and has to bypass the division, division by
  zero being forbidden: for such a row the builder stores the neutral divisor 1, and for
  every other row the policy temperature itself.  (The TPU model runner of the repository
  does the same in place: \<open>torch.where(t != 0, t, 1.0)\<close>.)
\<close>

definition spec_temperatures :: "real list \<Rightarrow> real list" where
  "spec_temperatures policy_temperatures =
     map (\<lambda>t. if t = 0 then 1 else t) policy_temperatures"

section \<open>Row operations\<close>

fun fsum :: "fl list \<Rightarrow> fl" where
  "fsum [] = Fin 0"
| "fsum (x # xs) = fadd x (fsum xs)"

text \<open>\<open>nansum\<close>: the sum with every \<open>NaN\<close> entry counted as 0.\<close>

definition nansum :: "fl list \<Rightarrow> fl" where
  "nansum xs = fsum (map (\<lambda>x. if x = NaN then Fin 0 else x) xs)"

fun cumsum_from :: "fl \<Rightarrow> fl list \<Rightarrow> fl list" where
  "cumsum_from acc [] = []"
| "cumsum_from acc (x # xs) = fadd acc x # cumsum_from (fadd acc x) xs"

definition cumsum :: "fl list \<Rightarrow> fl list" where
  "cumsum xs = cumsum_from (Fin 0) xs"

text \<open>\<open>diff\<close>: \<open>out[i] = x[i + 1] - x[i]\<close>.\<close>

definition diff :: "fl list \<Rightarrow> fl list" where
  "diff xs = map (\<lambda>(a, b). fsub b a) (zip xs (tl xs))"

text \<open>\<open>max\<close> along a row; it is an error on an empty row.\<close>

definition row_max :: "fl list \<Rightarrow> error + fl" where
  "row_max xs = bind (argmax xs) (\<lambda>i. Inr (xs ! i))"

text \<open>
  \<open>softmax\<close> and \<open>log_softmax\<close> along a row, computed after subtracting the row's
  maximum; the empty row is mapped to itself.
\<close>

definition exp_shifted :: "fl list \<Rightarrow> fl list" where
  "exp_shifted xs =
     (case row_max xs of Inl _ \<Rightarrow> [] | Inr m \<Rightarrow> map (\<lambda>x. fexp (fsub x m)) xs)"

definition softmax :: "fl list \<Rightarrow> fl list" where
  "softmax xs = map (\<lambda>e. fdiv e (fsum (exp_shifted xs))) (exp_shifted xs)"

definition log_softmax :: "fl list \<Rightarrow> fl list" where
  "log_softmax xs =
     (case row_max xs of
        Inl _ \<Rightarrow> []
      | Inr m \<Rightarrow> map (\<lambda>x. fsub (fsub x m) (flog (fsum (exp_shifted xs)))) xs)"

text \<open>\<open>self.scatter_(index, src)\<close>: \<open>self[index[j]] = src[j]\<close>, and \<open>gather\<close>.\<close>

definition scatter_row :: "'a list \<Rightarrow> nat list \<Rightarrow> 'a list \<Rightarrow> 'a list" where
  "scatter_row base index src = fold (\<lambda>(i, s) out. out[i := s]) (zip index src) base"

definition gather_row :: "'a list \<Rightarrow> nat list \<Rightarrow> 'a list" where
  "gather_row input index = map (\<lambda>i. input ! i) index"

text \<open>\<open>argsort\<close> of a row of indices.\<close>

definition argsort_nat :: "nat list \<Rightarrow> nat list" where
  "argsort_nat idx = map snd (sort_key fst (zip idx [0 ..< length idx]))"

text \<open>\<open>t[mask] = -inf\<close> and \<open>masked_fill_(mask, -inf)\<close> on a row.\<close>

definition masked_fill :: "fl list \<Rightarrow> bool list \<Rightarrow> fl list" where
  "masked_fill row msk = map (\<lambda>(l, m). if m then NInf else l) (zip row msk)"

section \<open>The truncation filters, row by row\<close>

text \<open>
  Each filter of the sampler works on every row on its own, with the row's entry of the
  parameter tensor.  The in-place \<open>unsqueeze_\<close> of a parameter tensor changes its shape
  only and is not part of the model.
\<close>

definition top_k_top_p_row :: "fl list \<Rightarrow> real \<Rightarrow> int \<Rightarrow> error + fl list" where
  "top_k_top_p_row row p k =
     (let sp = sort_pairs sort_key_fl row;
          logits_sort = map fst sp;
          logits_idx = map snd sp;
          n = length row;
          top_k_index = int n - k
      in if top_k_index < 0 \<or> int n \<le> top_k_index then Inl RuntimeError
         else
           let kth = logits_sort ! nat top_k_index;
               logits_sort1 = masked_fill logits_sort (map (\<lambda>v. flt v kth) logits_sort);
               probs_sum = cumsum (softmax logits_sort1);
               top_p_mask = (map (\<lambda>s. fle s (Fin (1 - p))) probs_sum)[n - 1 := False];
               logits_sort2 = masked_fill logits_sort1 top_p_mask;
               logits_idx_inv = scatter_row (replicate n 0) logits_idx [0 ..< n]
           in Inr (gather_row logits_sort2 logits_idx_inv))"

definition min_p_row :: "fl list \<Rightarrow> real \<Rightarrow> error + fl list" where
  "min_p_row row min_p =
     (let probs = softmax row
      in bind (row_max probs) (\<lambda>top_probs.
         let scaled_min_p = fmul (Fin min_p) top_probs
         in Inr (masked_fill row (map (\<lambda>q. flt q scaled_min_p) probs))))"

definition top_a_row :: "fl list \<Rightarrow> real \<Rightarrow> error + fl list" where
  "top_a_row row top_a =
     (let probs = softmax row
      in bind (row_max probs) (\<lambda>top_probs.
         let threshold = fmul (fmul top_probs top_probs) (Fin top_a)
         in Inr (masked_fill row (map (\<lambda>q. flt q threshold) probs))))"

definition tfs_row :: "fl list \<Rightarrow> real \<Rightarrow> error + fl list" where
  "tfs_row row tfs =
     (let sp = sort_pairs sort_key_desc row;
          logits_sort = map fst sp;
          logits_idx = map snd sp;
          d2 = map fabs (diff (diff (softmax logits_sort)));
          normalized_d2 = map (\<lambda>d. fdiv d (fsum d2)) d2;
          curvature_cdf = cumsum normalized_d2;
          tfs_mask = [False] @ map (\<lambda>c. fgt c (Fin tfs)) curvature_cdf @ [True]
      in if length tfs_mask \<noteq> length logits_sort then Inl IndexError
         else Inr (gather_row (masked_fill logits_sort tfs_mask) (argsort_nat logits_idx)))"

definition eta_cutoff_row :: "fl list \<Rightarrow> real \<Rightarrow> error + fl list" where
  "eta_cutoff_row row eta_cutoff =
     (let shifted_logits = log_softmax row;
          probs = map fexp shifted_logits;
          neg_entropy = nansum (map (\<lambda>(q, s). fmul q s) (zip probs shifted_logits));
          eps = fmin (Fin eta_cutoff) (fmul (fsqrt (Fin eta_cutoff)) (fexp neg_entropy));
          eta_mask = map (\<lambda>q. flt q eps) probs
      in bind (argmax probs) (\<lambda>top_idx.
         Inr (masked_fill row (eta_mask[top_idx := False]))))"

definition epsilon_cutoff_row :: "fl list \<Rightarrow> real \<Rightarrow> error + fl list" where
  "epsilon_cutoff_row row epsilon_cutoff =
     (let probs = softmax row;
          eps_mask = map (\<lambda>q. flt q (Fin epsilon_cutoff)) probs
      in bind (argmax probs) (\<lambda>top_idx.
         Inr (masked_fill row (eps_mask[top_idx := False]))))"

definition typical_row :: "fl list \<Rightarrow> real \<Rightarrow> error + fl list" where
  "typical_row row typical_p =
     (let shifted_logits = log_softmax row;
          probs = map fexp shifted_logits;
          neg_entropy = nansum (map (\<lambda>(q, s). fmul q s) (zip probs shifted_logits));
          surprisal_deviations = map (\<lambda>s. fabs (fsub neg_entropy s)) shifted_logits;
          indices = map snd (sort_pairs sort_key_fl surprisal_deviations);
          reordered_probs = gather_row probs indices;
          typ_mask_sorted = map (\<lambda>c. fge c (Fin typical_p)) (cumsum reordered_probs);
          typ_mask_sorted1 = (case typ_mask_sorted of [] \<Rightarrow> [] | _ # ms \<Rightarrow> False # ms);
          typ_mask = scatter_row typ_mask_sorted1 indices typ_mask_sorted1
      in Inr (masked_fill row typ_mask))"

definition quadratic_row :: "fl list \<Rightarrow> real \<Rightarrow> real \<Rightarrow> error + fl list" where
  "quadratic_row row smoothing_factor smoothing_curve =
     bind (row_max row) (\<lambda>max_logits.
     let k = (3 - smoothing_curve) / 2;
         s = (smoothing_curve - 1) / 2;
         transformed_logits =
           map (\<lambda>l. let d = fsub l max_logits
                     in if l \<noteq> NInf
                        then fadd (fadd (fneg (fmul (Fin (k * smoothing_factor)) (fmul d d)))
                                     (fmul (Fin (s * smoothing_factor)) (fmul (fmul d d) d)))
                               max_logits
                        else l) row
     in Inr (if 0 < smoothing_factor then transformed_logits else row))"

section \<open>The filters on the batch\<close>

text \<open>A filter with one parameter per row, applied to every row of the tensor.\<close>

definition apply_rows ::
  "(fl list \<Rightarrow> 'p \<Rightarrow> error + fl list) \<Rightarrow> fl list list \<Rightarrow> 'p list \<Rightarrow> error + fl list list" where
  "apply_rows f logits ps =
     bind (align ps (length logits)) (\<lambda>qs. mapM (\<lambda>(row, q). f row q) (zip logits qs))"

definition apply_top_k_top_p ::
  "fl list list \<Rightarrow> real list \<Rightarrow> int list \<Rightarrow> error + fl list list" where
  "apply_top_k_top_p logits p k =
     bind (align p (length logits)) (\<lambda>ps.
     bind (align k (length logits)) (\<lambda>ks.
     apply_rows (\<lambda>row (p, k). top_k_top_p_row row p k) logits (zip ps ks)))"

definition apply_top_a :: "fl list list \<Rightarrow> real list \<Rightarrow> error + fl list list" where
  "apply_top_a logits top_a = apply_rows top_a_row logits top_a"

definition apply_min_p :: "fl list list \<Rightarrow> real list \<Rightarrow> error + fl list list" where
  "apply_min_p logits min_p = apply_rows min_p_row logits min_p"

definition apply_tfs :: "fl list list \<Rightarrow> real list \<Rightarrow> error + fl list list" where
  "apply_tfs logits tfs = apply_rows tfs_row logits tfs"

definition apply_eta_cutoff :: "fl list list \<Rightarrow> real list \<Rightarrow> error + fl list list" where
  "apply_eta_cutoff logits eta_cutoff = apply_rows eta_cutoff_row logits eta_cutoff"

definition apply_epsilon_cutoff :: "fl list list \<Rightarrow> real list \<Rightarrow> error + fl list list" where
  "apply_epsilon_cutoff logits epsilon_cutoff =
     apply_rows epsilon_cutoff_row logits epsilon_cutoff"

definition apply_typical_sampling :: "fl list list \<Rightarrow> real list \<Rightarrow> error + fl list list" where
  "apply_typical_sampling logits typical_p = apply_rows typical_row logits typical_p"

definition apply_quadratic_sampling ::
  "fl list list \<Rightarrow> real list \<Rightarrow> real list \<Rightarrow> error + fl list list" where
  "apply_quadratic_sampling logits smoothing_factor smoothing_curve =
     bind (align smoothing_factor (length logits)) (\<lambda>fs.
     bind (align smoothing_curve (length logits)) (\<lambda>cs.
     apply_rows (\<lambda>row (f, c). quadratic_row row f c) logits (zip fs cs)))"

section \<open>The filter pipeline of \<open>forward\<close>\<close>

text \<open>
  The part of \<open>Sampler.forward\<close> between the reading of the tensors and flags and the
  computation of the probabilities: the statements that transform \<open>logits\<close>, in the
  order of the source.
\<close>

definition forward_logits ::
  "SamplingTensors \<Rightarrow> SamplingFlags \<Rightarrow> SamplingMetadata \<Rightarrow> fl list list
     \<Rightarrow> error + fl list list" where
  "forward_logits sampling_tensors flags sampling_metadata logits =
     bind (apply_min_tokens_penalty logits sampling_metadata) (\<lambda>logits.
     bind (if do_penalties flags
           then apply_penalties logits (prompt_tokens sampling_tensors)
                  (output_tokens sampling_tensors) (presence_penalties sampling_tensors)
                  (frequency_penalties sampling_tensors)
                  (repetition_penalties sampling_tensors)
           else Inr logits) (\<lambda>logits.
     bind (apply_temperature logits (temperatures sampling_tensors)) (\<lambda>logits.
     bind (if do_top_p_top_k flags
           then apply_top_k_top_p logits (top_ps sampling_tensors) (top_ks sampling_tensors)
           else Inr logits) (\<lambda>logits.
     bind (if do_top_as flags then apply_top_a logits (top_as sampling_tensors)
           else Inr logits) (\<lambda>logits.
     bind (if do_min_p flags then apply_min_p logits (min_ps sampling_tensors)
           else Inr logits) (\<lambda>logits.
     bind (if do_tfss flags then apply_tfs logits (tfss sampling_tensors)
           else Inr logits) (\<lambda>logits.
     bind (if do_eta_cutoffs flags
           then apply_eta_cutoff logits (eta_cutoffs sampling_tensors)
           else Inr logits) (\<lambda>logits.
     bind (if do_epsilon_cutoffs flags
           then apply_epsilon_cutoff logits (epsilon_cutoffs sampling_tensors)
           else Inr logits) (\<lambda>logits.
     bind (if do_typical_ps flags
           then apply_typical_sampling logits (typical_ps sampling_tensors)
           else Inr logits) (\<lambda>logits.
     if do_quadratic flags
     then apply_quadratic_sampling logits (smoothing_factors sampling_tensors)
            (smoothing_curves sampling_tensors)
     else Inr logits))))))))))"

text \<open>
  The transforms as a list of stages; a stage whose flag is off does nothing.
\<close>

definition stage_if :: "bool \<Rightarrow> ('a \<Rightarrow> error + 'a) \<Rightarrow> 'a \<Rightarrow> error + 'a" where
  "stage_if flag stage x = (if flag then stage x else Inr x)"

fun run_stages :: "('a \<Rightarrow> error + 'a) list \<Rightarrow> 'a \<Rightarrow> error + 'a" where
  "run_stages [] x = Inr x"
| "run_stages (stage # rest) x = bind (stage x) (run_stages rest)"

text \<open>
  The scenario of the minimum-token gate: \<open>min_tokens = 3\<close>, stop-token id 0, one
  sequence with one output token; top-k is active with \<open>k = 1\<close>.
\<close>

definition gate_group :: SequenceGroupToSample where
  "gate_group = group0\<lparr>sampling_params := params0\<lparr>min_tokens := 3, all_stop_token_ids := [0]\<rparr>\<rparr>"

definition gate_metadata :: SamplingMetadata where
  "gate_metadata = \<lparr>seq_groups = [gate_group], reuse_sampling_tensors = False,
     skip_sampler_cpu_output = False\<rparr>"

section \<open>Rows with a surviving token\<close>

fun is_fin :: "fl \<Rightarrow> bool" where
  "is_fin (Fin x) = True"
| "is_fin _ = False"

text \<open>
  A row is live when each entry is a finite logit or \<open>-inf\<close> (a masked token) and at
  least one entry is finite.
\<close>

definition live_row :: "fl list \<Rightarrow> bool" where
  "live_row row \<longleftrightarrow> list_all (\<lambda>l. l = NInf \<or> is_fin l) row \<and> list_ex is_fin row"

text \<open>Parameter tensors with top-a active: \<open>top_a = 3\<close>, one row of two tokens.\<close>

definition tensors_top_a :: SamplingTensors where
  "tensors_top_a = tensors0\<lparr>top_as := [3]\<rparr>"

definition flags_top_a :: SamplingFlags where
  "flags_top_a = flags0\<lparr>do_top_as := True\<rparr>"

text \<open>Parameter tensors and flags with every truncation filter active.\<close>

definition tensors_all :: SamplingTensors where
  "tensors_all = tensors0\<lparr>top_ps := [1 / 2], top_ks := [2], top_as := [1 / 2], min_ps := [1 / 2],
     tfss := [1 / 2], eta_cutoffs := [0], epsilon_cutoffs := [1 / 4], typical_ps := [1 / 2],
     smoothing_factors := [1], smoothing_curves := [1]\<rparr>"

definition flags_all :: SamplingFlags where
  "flags_all = \<lparr>do_penalties = False, do_top_p_top_k = True, do_top_as = True,
     do_min_p = True, do_tfss = True, do_eta_cutoffs = True, do_epsilon_cutoffs = True,
     do_typical_ps = True, do_quadratic = True\<rparr>"

section \<open>The logprob extractor\<close>

text \<open>
  \<open>_get_next_prompt_tokens\<close>: the prompt tokens that follow the computed ones, as many as
  the query is long.  \<open>get_num_computed_tokens()\<close> reads the field \<open>num_computed_tokens\<close>.
\<close>

definition get_next_prompt_tokens :: "SequenceGroupToSample \<Rightarrow> error + nat list" where
  "get_next_prompt_tokens seq_group =
     (if \<not> is_prompt seq_group then Inl AssertionError
      else
        (case query_len seq_group of
           None \<Rightarrow> Inl AssertionError
         | Some query_len' \<Rightarrow>
             if length (seq_ids seq_group) \<noteq> 1 then Inl AssertionError
             else
               (case seq_data seq_group (hd (seq_ids seq_group)) of
                  None \<Rightarrow> Inl KeyError
                | Some d \<Rightarrow>
                    let computed_len = num_computed_tokens d;
                        prompt_tokens' = prompt_token_ids d;
                        next_token_index_start = computed_len + 1;
                        next_token_index_end =
                          min (computed_len + query_len' + 1) (length prompt_tokens')
                    in Inr (take (next_token_index_end - next_token_index_start)
                              (drop next_token_index_start prompt_tokens')))))"

text \<open>
  The first loop of \<open>_get_logprobs\<close>: the rows to query, the token of each, the largest
  number of logprobs requested (\<open>-1\<close> when none is) and whether beam search is in use.
\<close>

fun select_indices ::
  "(SequenceGroupToSample \<times> nat list \<times> nat list) list \<Rightarrow> nat list \<Rightarrow> nat list \<Rightarrow> int \<Rightarrow> bool
     \<Rightarrow> error + (nat list \<times> nat list \<times> int \<times> bool)" where
  "select_indices [] query_indices next_token_ids largest_num_logprobs use_beam_search' =
     Inr (query_indices, next_token_ids, largest_num_logprobs, use_beam_search')"
| "select_indices ((seq_group, sample_result) # rest) query_indices next_token_ids
      largest_num_logprobs use_beam_search' =
     bind
       (case prompt_logprobs (sampling_params seq_group) of
          Some n \<Rightarrow>
            if is_prompt seq_group then
              bind (get_next_prompt_tokens seq_group) (\<lambda>next_prompt_tokens.
              Inr (query_indices @ prompt_logprob_indices seq_group,
                   next_token_ids @ next_prompt_tokens,
                   max largest_num_logprobs (int n)))
            else Inr (query_indices, next_token_ids, largest_num_logprobs)
        | None \<Rightarrow> Inr (query_indices, next_token_ids, largest_num_logprobs))
       (\<lambda>(query_indices1, next_token_ids1, largest1).
     bind
       (if do_sample seq_group then
          (case sample_indices seq_group of
             [] \<Rightarrow> Inl IndexError
           | query_idx # _ \<Rightarrow>
               Inr (query_indices1
                      @ map (\<lambda>parent_id. query_idx + parent_id) (snd sample_result),
                    next_token_ids1 @ fst sample_result,
                    (case logprobs (sampling_params seq_group) of
                       None \<Rightarrow> largest1
                     | Some n \<Rightarrow> max largest1 (int n)),
                    use_beam_search' \<or> use_beam_search (sampling_params seq_group)))
        else Inr (query_indices1, next_token_ids1, largest1, use_beam_search'))
       (\<lambda>(query_indices2, next_token_ids2, largest2, use_beam_search2).
     if length next_token_ids2 = length query_indices2
     then select_indices rest query_indices2 next_token_ids2 largest2 use_beam_search2
     else Inl AssertionError))"

text \<open>
  The body of the loop over \<open>enumerate(next_prompt_tokens)\<close> in
  \<open>_get_prompt_logprob_if_needed\<close>; \<open>top_logprob_idx\<close> has advanced by \<open>idx\<close> when the
  token at \<open>idx\<close> is reached.
\<close>

definition prompt_logprobs_dict ::
  "nat \<Rightarrow> fl list \<Rightarrow> nat list \<Rightarrow> nat list list option \<Rightarrow> fl list list option \<Rightarrow> nat
     \<Rightarrow> nat \<times> nat \<Rightarrow> error + (nat \<rightharpoonup> Logprob)" where
  "prompt_logprobs_dict num_logprobs selected_logprob_items rank_items top_token_ids
      top_logprobs top_logprob_idx e =
     (case e of (idx, token_id) \<Rightarrow>
      bind (item selected_logprob_items idx) (\<lambda>lp.
      bind (item rank_items idx) (\<lambda>rk.
      let d = [token_id \<mapsto> (lp, rk)] in
      bind (if 0 < num_logprobs then
              bind (tensor_of top_token_ids) (\<lambda>tt.
              bind (item tt (top_logprob_idx + idx)) (\<lambda>ids_row.
              bind (tensor_of top_logprobs) (\<lambda>tl.
              bind (item tl (top_logprob_idx + idx)) (\<lambda>probs_row.
              Inr (dict_update d
                     (zip (take num_logprobs ids_row)
                        (zip (take num_logprobs probs_row) [1 ..< num_logprobs + 1])))))))
            else Inr d)
        (\<lambda>d'. Inr (map_option Logprob2 \<circ> d')))))"

definition get_prompt_logprob_if_needed ::
  "SequenceGroupToSample \<Rightarrow> fl list option \<Rightarrow> nat list option \<Rightarrow> nat list list option
     \<Rightarrow> fl list list option \<Rightarrow> nat \<Rightarrow> nat
     \<Rightarrow> error + ((nat \<rightharpoonup> Logprob) list option \<times> nat \<times> nat)" where
  "get_prompt_logprob_if_needed seq_group selected_logprobs ranks top_token_ids top_logprobs
      selected_logprobs_idx top_logprob_idx =
     (case prompt_logprobs (sampling_params seq_group) of
        Some num_logprobs \<Rightarrow>
          if is_prompt seq_group then
            bind (get_next_prompt_tokens seq_group) (\<lambda>next_prompt_tokens.
            bind (tensor_of selected_logprobs) (\<lambda>sl.
            bind (tensor_of ranks) (\<lambda>rs.
            bind (mapM (prompt_logprobs_dict num_logprobs
                          (slice sl selected_logprobs_idx (length next_prompt_tokens))
                          (slice rs selected_logprobs_idx (length next_prompt_tokens))
                          top_token_ids top_logprobs top_logprob_idx)
                    (zip [0 ..< length next_prompt_tokens] next_prompt_tokens))
              (\<lambda>prompt_logprobs'.
            Inr (Some prompt_logprobs',
                 top_logprob_idx + length next_prompt_tokens,
                 selected_logprobs_idx + length next_prompt_tokens)))))
          else Inr (None, top_logprob_idx, selected_logprobs_idx)
      | None \<Rightarrow> Inr (None, top_logprob_idx, selected_logprobs_idx))"

text \<open>The second loop of \<open>_get_logprobs\<close>, over the groups and their sample results.\<close>

fun find_logprobs ::
  "(SequenceGroupToSample \<times> nat list \<times> nat list) list \<Rightarrow> fl list option \<Rightarrow> nat list option
     \<Rightarrow> nat list list option \<Rightarrow> fl list list option \<Rightarrow> nat \<Rightarrow> nat
     \<Rightarrow> error + ((nat \<rightharpoonup> Logprob) list option list \<times> (nat \<rightharpoonup> Logprob) list list)" where
  "find_logprobs [] selected_logprobs ranks top_token_ids top_logprobs top_logprob_idx
      selected_logprobs_idx = Inr ([], [])"
| "find_logprobs ((seq_group, sample_result) # rest) selected_logprobs ranks top_token_ids
      top_logprobs top_logprob_idx selected_logprobs_idx =
     bind (get_prompt_logprob_if_needed seq_group selected_logprobs ranks top_token_ids
             top_logprobs selected_logprobs_idx top_logprob_idx)
       (\<lambda>(prompt_logprobs', top_logprob_idx1, selected_logprobs_idx1).
     bind (get_sampled_logprob_if_needed seq_group sample_result selected_logprobs ranks
             top_token_ids top_logprobs selected_logprobs_idx1 top_logprob_idx1)
       (\<lambda>(sampled_logprobs, top_logprob_idx2, selected_logprobs_idx2).
     bind (find_logprobs rest selected_logprobs ranks top_token_ids top_logprobs
             top_logprob_idx2 selected_logprobs_idx2)
       (\<lambda>(prompt_rest, sample_rest).
     Inr (prompt_logprobs' # prompt_rest, sampled_logprobs # sample_rest))))"

text \<open>
  \<open>_get_logprobs\<close>.  The ranks come from \<open>_get_ranks\<close> on the queried rows; the top
  tokens of every row come from \<open>torch.topk\<close> when some request asks for more than zero
  logprobs.
\<close>

definition get_logprobs ::
  "fl list list \<Rightarrow> SamplingMetadata \<Rightarrow> (nat list \<times> nat list) list
     \<Rightarrow> error + ((nat \<rightharpoonup> Logprob) list option list \<times> (nat \<rightharpoonup> Logprob) list list)" where
  "get_logprobs logprobs' sampling_metadata sample_results =
     bind (select_indices (zip (seq_groups sampling_metadata) sample_results) [] [] (- 1) False)
       (\<lambda>(query_indices, next_token_ids, largest_num_logprobs, use_beam_search').
     if length query_indices = 0 then Inr ([None], [[]])
     else
       bind
         (if 0 \<le> largest_num_logprobs \<or> use_beam_search' then
            bind (mapM (\<lambda>(r, c). bind (item logprobs' r) (\<lambda>row. item row c))
                    (zip query_indices next_token_ids)) (\<lambda>selected_logprobs.
            bind (mapM (item logprobs') query_indices) (\<lambda>queried.
            bind (get_ranks queried next_token_ids) (\<lambda>ranks.
            if length selected_logprobs \<noteq> length ranks then Inl AssertionError
            else
              bind (if 0 < largest_num_logprobs then
                      bind (mapM (\<lambda>row. topk row (nat largest_num_logprobs)) logprobs')
                        (\<lambda>top. Inr (Some (map snd top), Some (map fst top)))
                    else Inr (None, None))
                (\<lambda>(top_token_ids, top_logprobs).
              Inr (Some selected_logprobs, Some ranks, top_token_ids, top_logprobs)))))
          else Inr (None, None, None, None))
         (\<lambda>(selected_logprobs, ranks, top_token_ids, top_logprobs).
       find_logprobs (zip (seq_groups sampling_metadata) sample_results) selected_logprobs
         ranks top_token_ids top_logprobs 0 0))"

text \<open>
  A decode-phase group of two sequences that asks for two logprobs, sampled at random;
  the two rows of the batch are the log-probabilities of two equally likely tokens.
\<close>

definition tie_group :: SequenceGroupToSample where
  "tie_group = \<lparr>seq_ids = [7, 8],
     sampling_params = params0\<lparr>best_of := 2, logprobs := Some 2, sampling_type := RANDOM\<rparr>,
     seq_data = [7 \<mapsto> \<lparr>prompt_token_ids = [5], output_token_ids_array = [4],
                      cumulative_logprob = Fin 0, num_computed_tokens = 1\<rparr>,
                 8 \<mapsto> \<lparr>prompt_token_ids = [5], output_token_ids_array = [4],
                      cumulative_logprob = Fin 0, num_computed_tokens = 1\<rparr>],
     is_prompt = False, do_sample = True, query_len = None, sample_indices = [0, 1],
     prompt_logprob_indices = []\<rparr>"

definition tie_metadata :: SamplingMetadata where
  "tie_metadata = \<lparr>seq_groups = [tie_group], reuse_sampling_tensors = False,
     skip_sampler_cpu_output = False\<rparr>"

section \<open>Properties\<close>

lemma bind_Inr [simp]: "bind (Inr x) f = f x"
  by (simp add: bind_def)

lemma bind_Inl [simp]: "bind (Inl e) f = Inl e"
  by (simp add: bind_def)

text \<open>
  C10.  A sequence group that is sampled, whose policy asks for no logprobs
  (\<open>logprobs = None\<close>) and does not use beam search, gets for every sampled token a map
  that sends the token to the placeholder log-probability \<open>+inf\<close> (no rank); the
  log-probability and rank tensors are not read, whatever they hold.
\<close>

theorem sampled_logprob_placeholder:
  assumes "do_sample seq_group"
    and "logprobs (sampling_params seq_group) = None"
    and "\<not> use_beam_search (sampling_params seq_group)"
    and "next_token_ids \<noteq> []"
  shows "get_sampled_logprob_if_needed seq_group (next_token_ids, parent_seq_ids)
           selected_logprobs ranks top_token_ids top_logprobs selected_logprobs_idx
           top_logprob_idx
         = Inr (map (\<lambda>t. [t \<mapsto> \<lparr>logprob = PInf, rank = None, decoded_token = None\<rparr>])
                  next_token_ids,
                top_logprob_idx + length (seq_ids seq_group),
                selected_logprobs_idx + length next_token_ids)"
  using assms by (simp add: get_sampled_logprob_if_needed_def Logprob1_def)

theorem sampled_logprob_placeholder_witness:
  "get_sampled_logprob_if_needed group0 ([5], [0]) (Some [Fin (- 1)]) (Some [2]) None None 0 0
     = Inr ([[5 \<mapsto> \<lparr>logprob = PInf, rank = None, decoded_token = None\<rparr>]], 1, 1)"
  using sampled_logprob_placeholder [of group0 "[5]" "[0]" "Some [Fin (- 1)]" "Some [2]" None None 0 0]
  by (simp add: group0_def params0_def)

subsection \<open>C9: reuse of the cached parameter tensors\<close>

text \<open>
  C9.  \<open>forward\<close> reuses the cached tensor bundle exactly when the caller's flag
  \<open>reuse_sampling_tensors\<close> is set and the cached penalty flag is off: then the sampler
  and the bundle it works with are the cached ones.  When the flag is unset, or it is set
  and the cached penalty flag is on, the bundle is rebuilt from the current batch
  descriptor and replaces the cache.
\<close>

theorem forward_reuses_only_without_penalties:
  "(reuse_sampling_tensors md \<and> stored self = Some (t, f) \<and> \<not> do_penalties f
      \<longrightarrow> forward_prepare build self V md = Inr (self, t, f))
   \<and> (\<not> reuse_sampling_tensors md \<or> (stored self = Some (t, f) \<and> do_penalties f)
      \<longrightarrow> forward_prepare build self V md
            = Inr (self\<lparr>stored := Some (build md V)\<rparr>, fst (build md V), snd (build md V)))"
  by (cases "build md V")
     (auto simp: forward_prepare_def init_sampling_tensors_def)

theorem forward_reuses_only_without_penalties_witness:
  "forward_prepare build0 \<lparr>include_gpu_probs_tensor = False, stored = Some (tensors0, flags0)\<rparr>
       3 (metadata0 True)
     = Inr (\<lparr>include_gpu_probs_tensor = False, stored = Some (tensors0, flags0)\<rparr>,
            tensors0, flags0)
   \<and> forward_prepare build0
       \<lparr>include_gpu_probs_tensor = False, stored = Some (tensors0, flags0)\<rparr> 3 (metadata0 False)
     = Inr (\<lparr>include_gpu_probs_tensor = False,
              stored = Some (tensors0\<lparr>temperatures := [2]\<rparr>, flags0)\<rparr>,
            tensors0\<lparr>temperatures := [2]\<rparr>, flags0)
   \<and> forward_prepare build0
       \<lparr>include_gpu_probs_tensor = False,
          stored = Some (tensors0, flags0\<lparr>do_penalties := True\<rparr>)\<rparr> 3 (metadata0 True)
     = Inr (\<lparr>include_gpu_probs_tensor = False,
              stored = Some (tensors0\<lparr>temperatures := [2]\<rparr>, flags0)\<rparr>,
            tensors0\<lparr>temperatures := [2]\<rparr>, flags0)"
  using forward_reuses_only_without_penalties
          [of "metadata0 True"
              "\<lparr>include_gpu_probs_tensor = False, stored = Some (tensors0, flags0)\<rparr>"
              tensors0 flags0 build0 3]
        forward_reuses_only_without_penalties
          [of "metadata0 False"
              "\<lparr>include_gpu_probs_tensor = False, stored = Some (tensors0, flags0)\<rparr>"
              tensors0 flags0 build0 3]
        forward_reuses_only_without_penalties
          [of "metadata0 True"
              "\<lparr>include_gpu_probs_tensor = False,
                 stored = Some (tensors0, flags0\<lparr>do_penalties := True\<rparr>)\<rparr>"
              tensors0 "flags0\<lparr>do_penalties := True\<rparr>" build0 3]
  by (simp add: metadata0_def flags0_def build0_def)

subsection \<open>Basic facts\<close>

lemma bind_eq_Inr: "bind m f = Inr y \<longleftrightarrow> (\<exists>x. m = Inr x \<and> f x = Inr y)"
  by (cases m) simp_all

lemma item_Inr [simp]: "i < length xs \<Longrightarrow> item xs i = Inr (xs ! i)"
  by (simp add: item_def)

lemma item_eq_Inr: "item xs i = Inr v \<longleftrightarrow> i < length xs \<and> v = xs ! i"
  by (auto simp: item_def)

lemma align_same [simp]: "length ps = n \<Longrightarrow> align ps n = Inr ps"
  by (simp add: align_def)

lemma mapM_total: "(\<And>x. x \<in> set xs \<Longrightarrow> f x = Inr (g x)) \<Longrightarrow> mapM f xs = Inr (map g xs)"
  by (induction xs) simp_all

lemma mapM_Inr_iff: "mapM f xs = Inr ys \<longleftrightarrow> list_all2 (\<lambda>x y. f x = Inr y) xs ys"
proof (induction xs arbitrary: ys)
  case Nil
  show ?case by auto
next
  case (Cons x xs)
  show ?case
    by (cases ys) (auto simp: bind_eq_Inr Cons.IH)
qed

lemma flt_irrefl [simp]: "\<not> flt a a"
  by (cases a) simp_all

lemma flt_key: "flt a b \<Longrightarrow> sort_key_fl a < sort_key_fl b"
  by (cases a; cases b) simp_all

subsection \<open>\<open>argmax\<close>\<close>

lemma argmax_scan_props:
  assumes "\<forall>e \<in> set es. fst e < n \<and> snd e = xs ! fst e" "fst b < n" "snd b = xs ! fst b"
  shows "fst (argmax_scan b es) < n
       \<and> snd (argmax_scan b es) = xs ! fst (argmax_scan b es)
       \<and> sort_key_fl (snd b) \<le> sort_key_fl (snd (argmax_scan b es))
       \<and> (\<forall>e \<in> set es. sort_key_fl (snd e) \<le> sort_key_fl (snd (argmax_scan b es)))"
  using assms
proof (induction es arbitrary: b)
  case Nil
  then show ?case by simp
next
  case (Cons e es)
  let ?b = "if sort_key_fl (snd b) < sort_key_fl (snd e) then e else b"
  have IH: "fst (argmax_scan ?b es) < n
       \<and> snd (argmax_scan ?b es) = xs ! fst (argmax_scan ?b es)
       \<and> sort_key_fl (snd ?b) \<le> sort_key_fl (snd (argmax_scan ?b es))
       \<and> (\<forall>e \<in> set es. sort_key_fl (snd e) \<le> sort_key_fl (snd (argmax_scan ?b es)))"
    using Cons.prems by (intro Cons.IH) auto
  have "sort_key_fl (snd b) \<le> sort_key_fl (snd ?b)" "sort_key_fl (snd e) \<le> sort_key_fl (snd ?b)"
    by auto
  with IH show ?case
    by (auto intro: order_trans simp del: sort_key_fl.simps)
qed

lemma argmax_greatest:
  assumes "argmax xs = Inr i"
  shows "i < length xs \<and> (\<forall>j < length xs. sort_key_fl (xs ! j) \<le> sort_key_fl (xs ! i))"
proof (cases xs)
  case Nil
  with assms show ?thesis by (simp add: argmax_def)
next
  case (Cons x r)
  define es where "es = zip [1 ..< length xs] r"
  define a where "a = argmax_scan (0, x) es"
  have i: "i = fst a"
    using assms Cons by (simp add: argmax_def a_def es_def)
  have nth_es: "[1 ..< length xs] ! k = Suc k" if "k < length r" for k
    using that Cons by (simp del: upt_Suc)
  have es: "\<forall>e \<in> set es. fst e < length xs \<and> snd e = xs ! fst e"
  proof
    fix e assume "e \<in> set es"
    then obtain k where k: "k < length r" "e = ([1 ..< length xs] ! k, r ! k)"
      unfolding es_def by (auto simp: set_zip simp del: upt_Suc)
    then show "fst e < length xs \<and> snd e = xs ! fst e"
      using Cons nth_es [OF k(1)] by simp
  qed
  have b: "fst (0::nat, x) < length xs" "snd (0::nat, x) = xs ! fst (0::nat, x)"
    using Cons by simp_all
  have P: "fst a < length xs \<and> snd a = xs ! fst a
       \<and> sort_key_fl (snd (0::nat, x)) \<le> sort_key_fl (snd a)
       \<and> (\<forall>e \<in> set es. sort_key_fl (snd e) \<le> sort_key_fl (snd a))"
    unfolding a_def by (rule argmax_scan_props [where xs = xs and n = "length xs", OF es b])
  have P1: "fst a < length xs" and P2: "snd a = xs ! i"
    and P3: "sort_key_fl x \<le> sort_key_fl (snd a)"
    and P4: "\<And>e. e \<in> set es \<Longrightarrow> sort_key_fl (snd e) \<le> sort_key_fl (snd a)"
    using P i by auto
  have "sort_key_fl (xs ! j) \<le> sort_key_fl (xs ! i)" if "j < length xs" for j
  proof (cases j)
    case 0
    have "xs ! j = x" using Cons 0 by simp
    then show ?thesis using P3 P2 by (simp del: sort_key_fl.simps)
  next
    case (Suc k)
    then have k: "k < length r" using that Cons by simp
    have "(j, xs ! j) \<in> set es"
      unfolding es_def set_zip using Suc Cons k nth_es [OF k]
      by (auto simp del: upt_Suc intro!: exI [of _ k])
    from P4 [OF this] show ?thesis using P2 by (simp del: sort_key_fl.simps)
  qed
  then show ?thesis using P1 i by simp
qed

lemma argmax_not_exceeded:
  assumes "argmax xs = Inr i" "j < length xs"
  shows "\<not> fgt (xs ! j) (xs ! i)"
  using argmax_greatest [OF assms(1)] assms(2) flt_key [of "xs ! i" "xs ! j"]
  by (auto simp: fgt_def simp del: sort_key_fl.simps)

lemma argmax_nonempty: "xs \<noteq> [] \<Longrightarrow> \<exists>i. argmax xs = Inr i"
  by (cases xs) (simp_all add: argmax_def)

subsection \<open>C8: the rank of the chosen token\<close>

lemma get_ranks_value:
  assumes "length indices = length x" and "\<And>n. n < length x \<Longrightarrow> indices ! n < length (x ! n)"
  shows "get_ranks x indices
         = Inr (map (\<lambda>n. length (filter (\<lambda>e. fgt e (x ! n ! (indices ! n))) (x ! n)) + 1)
                  [0 ..< length x])"
proof -
  have vals: "mapM (\<lambda>(row, i). item row i) (zip x indices)
              = Inr (map (\<lambda>(row, i). row ! i) (zip x indices))"
    using assms by (intro mapM_total) (auto simp: set_zip)
  have "map (\<lambda>(row, v). length (filter (\<lambda>e. fgt e v) row) + 1)
          (zip x (map (\<lambda>(row, i). row ! i) (zip x indices)))
        = map (\<lambda>n. length (filter (\<lambda>e. fgt e (x ! n ! (indices ! n))) (x ! n)) + 1)
            [0 ..< length x]"
    using assms(1) by (intro nth_equalityI) simp_all
  then show ?thesis
    using assms(1) by (simp add: get_ranks_def vals)
qed

lemma count_greater_card:
  assumes "i < length row"
  shows "length (filter (\<lambda>e. fgt e (row ! i)) row)
         = card {m. m < length row \<and> m \<noteq> i \<and> fgt (row ! m) (row ! i)}"
proof -
  have "{m. m < length row \<and> fgt (row ! m) (row ! i)}
        = {m. m < length row \<and> m \<noteq> i \<and> fgt (row ! m) (row ! i)}"
    by (auto simp: fgt_def)
  then show ?thesis
    by (simp add: length_filter_conv_card)
qed

text \<open>
  The rank tensor.  For a logprob tensor \<open>x\<close> and one chosen token per row, \<open>_get_ranks\<close>
  returns for every row 1 plus the number of other tokens of the row whose value is
  strictly greater than the chosen token's.  Hence the rank is 1 when no token is strictly
  greater, in particular for the row's \<open>argmax\<close>, and choosing a token tied with the chosen
  one gives the same ranks.
\<close>

lemma get_ranks_counts_strictly_greater:
  assumes "length indices = length x"
    and "\<And>n. n < length x \<Longrightarrow> indices ! n < length (x ! n)"
  shows "\<exists>rs. get_ranks x indices = Inr rs \<and> length rs = length x
           \<and> (\<forall>n < length x.
                rs ! n = 1 + card {m. m < length (x ! n) \<and> m \<noteq> indices ! n
                                      \<and> fgt (x ! n ! m) (x ! n ! (indices ! n))}
              \<and> ((\<forall>m < length (x ! n). \<not> fgt (x ! n ! m) (x ! n ! (indices ! n)))
                    \<longrightarrow> rs ! n = 1)
              \<and> (argmax (x ! n) = Inr (indices ! n) \<longrightarrow> rs ! n = 1)
              \<and> (\<forall>m < length (x ! n). x ! n ! m = x ! n ! (indices ! n)
                    \<longrightarrow> get_ranks x (indices[n := m]) = Inr rs))"
proof -
  let ?rk = "\<lambda>ix n. length (filter (\<lambda>e. fgt e (x ! n ! (ix ! n))) (x ! n)) + 1"
  let ?rs = "map (?rk indices) [0 ..< length x]"
  have val: "get_ranks x indices = Inr ?rs"
    by (rule get_ranks_value [OF assms])
  have "rs_ok": "?rs ! n = 1 + card {m. m < length (x ! n) \<and> m \<noteq> indices ! n
                                      \<and> fgt (x ! n ! m) (x ! n ! (indices ! n))}"
    if "n < length x" for n
    using that count_greater_card [OF assms(2) [OF that]] by simp
  have one: "?rs ! n = 1"
    if "n < length x" "\<forall>m < length (x ! n). \<not> fgt (x ! n ! m) (x ! n ! (indices ! n))" for n
  proof -
    have "{m. m < length (x ! n) \<and> m \<noteq> indices ! n
              \<and> fgt (x ! n ! m) (x ! n ! (indices ! n))} = {}"
      using that(2) by auto
    then show ?thesis using rs_ok [OF that(1)] by simp
  qed
  have top: "?rs ! n = 1" if "n < length x" "argmax (x ! n) = Inr (indices ! n)" for n
    using one [OF that(1)] argmax_not_exceeded [OF that(2)] by blast
  have tie: "get_ranks x (indices[n := m]) = Inr ?rs"
    if "n < length x" "m < length (x ! n)" "x ! n ! m = x ! n ! (indices ! n)" for n m
  proof -
    have rng: "\<And>k. k < length x \<Longrightarrow> indices[n := m] ! k < length (x ! k)"
      using assms that by (auto simp: nth_list_update)
    have "get_ranks x (indices[n := m]) = Inr (map (?rk (indices[n := m])) [0 ..< length x])"
      using assms(1) rng by (intro get_ranks_value) simp_all
    moreover have "map (?rk (indices[n := m])) [0 ..< length x] = ?rs"
      using that assms(1) by (intro nth_equalityI) (auto simp: nth_list_update)
    ultimately show ?thesis by simp
  qed
  show ?thesis
    using val rs_ok one top tie by (intro exI [of _ ?rs]) simp
qed

lemma get_ranks_counts_strictly_greater_example:
  "get_ranks [[Fin (- 1), Fin (- 2), Fin (- 1)], [Fin 0, Fin 0]] [1, 0] = Inr [3, 1]"
proof -
  let ?x = "[[Fin (- 1), Fin (- 2), Fin (- 1)], [Fin 0, Fin 0]]"
  have h1: "length [1, 0 :: nat] = length ?x" by simp
  have h2: "\<And>n. n < length ?x \<Longrightarrow> [1, 0 :: nat] ! n < length (?x ! n)"
    by (auto simp: less_Suc_eq)
  obtain rs where rs: "get_ranks ?x [1, 0] = Inr rs"
    using get_ranks_counts_strictly_greater [OF h1 h2] by blast
  then show ?thesis
    by (auto simp: get_ranks_def fgt_def numeral_3_eq_3)
qed

text \<open>
  C8 (defect of the code).  A decode-phase group of two sequences asks for two logprobs.
  Both rows of the batch hold the log-probabilities of two equally likely tokens, the
  \<open>log_softmax\<close> of the logits \<open>[0, 0]\<close>; the token chosen is 0 in the first row and 1 in
  the second.  \<open>_get_ranks\<close> gives both chosen tokens the rank 1.  In the maps that
  \<open>_get_logprobs\<close> returns, a token listed among the top tokens of its row gets its
  position in that list as its rank, which replaces the rank of the chosen token: the
  chosen token 1 of the second row, a maximum of its row tied with token 0, is returned
  with rank 2.
\<close>

theorem chosen_rank_overwritten_by_top_position:
  "get_logprobs [[Fin (- ln 2), Fin (- ln 2)], [Fin (- ln 2), Fin (- ln 2)]] tie_metadata
     [([0, 1], [0, 1])]
   = Inr ([None],
          [[[0 \<mapsto> \<lparr>logprob = Fin (- ln 2), rank = Some 1, decoded_token = None\<rparr>,
             1 \<mapsto> \<lparr>logprob = Fin (- ln 2), rank = Some 2, decoded_token = None\<rparr>],
            [0 \<mapsto> \<lparr>logprob = Fin (- ln 2), rank = Some 1, decoded_token = None\<rparr>,
             1 \<mapsto> \<lparr>logprob = Fin (- ln 2), rank = Some 2, decoded_token = None\<rparr>]]])
   \<and> get_ranks [[Fin (- ln 2), Fin (- ln 2)], [Fin (- ln 2), Fin (- ln 2)]] [0, 1] = Inr [1, 1]
   \<and> log_softmax [Fin 0, Fin 0] = [Fin (- ln 2), Fin (- ln 2)]"
proof -
  let ?v = "Fin (- ln 2)"
  have sp: "sort_pairs sort_key_desc [?v, ?v] = [(?v, 0), (?v, 1)]"
    by (simp add: sort_pairs_def)
  have tk: "topk [?v, ?v] 2 = Inr ([?v, ?v], [0, 1])"
    by (simp add: topk_def sp)
  have rk: "get_ranks [[?v, ?v], [?v, ?v]] [0, 1] = Inr [1, 1]"
    by (simp add: get_ranks_def align_def item_def fgt_def)
  have sel: "select_indices (zip (seq_groups tie_metadata) [([0, 1], [0, 1])]) [] [] (- 1) False
             = Inr ([0, 1], [0, 1], 2, False)"
    by (simp add: tie_metadata_def tie_group_def params0_def)
  have ls: "log_softmax [Fin 0, Fin 0] = [?v, ?v]"
    by (simp add: log_softmax_def softmax_def exp_shifted_def row_max_def argmax_def fsub_def
        ln_div)
  have r12: "[Suc 0 ..< 3] = [Suc 0, 2]" by (simp add: upt_conv_Cons)
  have run: "get_logprobs [[?v, ?v], [?v, ?v]] tie_metadata [([0, 1], [0, 1])]
     = Inr ([None],
          [[[0 \<mapsto> \<lparr>logprob = ?v, rank = Some 1, decoded_token = None\<rparr>,
             1 \<mapsto> \<lparr>logprob = ?v, rank = Some 2, decoded_token = None\<rparr>],
            [0 \<mapsto> \<lparr>logprob = ?v, rank = Some 1, decoded_token = None\<rparr>,
             1 \<mapsto> \<lparr>logprob = ?v, rank = Some 2, decoded_token = None\<rparr>]]])"
    unfolding get_logprobs_def sel
    by (simp add: get_ranks_def align_def fgt_def topk_def sp item_def tie_metadata_def tie_group_def params0_def
        get_prompt_logprob_if_needed_def get_sampled_logprob_if_needed_def
        sampled_logprobs_dict_def tensor_of_def slice_def Logprob2_def fun_eq_iff r12)
  show ?thesis using run rk ls by simp
qed

subsection \<open>C6: pinned probabilities of greedy rows\<close>

lemma zero_rows_value:
  assumes "\<forall>r \<in> set rs. r < length p"
  shows "zero_rows p rs
         = Inr (map (\<lambda>i. if i \<in> set rs then replicate (length (p ! i)) (Fin 0) else p ! i)
                  [0 ..< length p])"
  using assms
proof (induction rs arbitrary: p)
  case Nil
  show ?case by (simp add: map_nth)
next
  case (Cons r rs)
  let ?p = "p[r := replicate (length (p ! r)) (Fin 0)]"
  have r: "r < length p" using Cons.prems by simp
  have "zero_rows ?p rs
        = Inr (map (\<lambda>i. if i \<in> set rs then replicate (length (?p ! i)) (Fin 0) else ?p ! i)
                 [0 ..< length ?p])"
    using Cons.prems by (intro Cons.IH) simp
  moreover have "map (\<lambda>i. if i \<in> set rs then replicate (length (?p ! i)) (Fin 0) else ?p ! i)
                   [0 ..< length ?p]
               = map (\<lambda>i. if i \<in> set (r # rs) then replicate (length (p ! i)) (Fin 0) else p ! i)
                   [0 ..< length p]"
    using r by (intro nth_equalityI) (auto simp: nth_list_update)
  ultimately show ?case using r by simp
qed

lemma index_put_value:
  assumes "\<forall>(r, c) \<in> set rcs. r < length t \<and> c < length (t ! r)"
  shows "index_put t rcs v
         = Inr (map (\<lambda>i. map (\<lambda>j. if (i, j) \<in> set rcs then v else t ! i ! j)
                            [0 ..< length (t ! i)])
                  [0 ..< length t])"
  using assms
proof (induction rcs arbitrary: t)
  case Nil
  have "map (\<lambda>i. map (\<lambda>j. t ! i ! j) [0 ..< length (t ! i)]) [0 ..< length t] = t"
    by (intro nth_equalityI) (simp_all add: map_nth)
  then show ?case by simp
next
  case (Cons rc rcs)
  obtain r c where rc: "rc = (r, c)" by (cases rc)
  let ?t = "t[r := (t ! r)[c := v]]"
  have r: "r < length t" "c < length (t ! r)" using Cons.prems rc by auto
  have len: "length (?t ! i) = length (t ! i)" if "i < length t" for i
    using that by (cases "i = r") simp_all
  have "\<forall>(r', c') \<in> set rcs. r' < length ?t \<and> c' < length (?t ! r')"
    using Cons.prems len by auto
  then have "index_put ?t rcs v
        = Inr (map (\<lambda>i. map (\<lambda>j. if (i, j) \<in> set rcs then v else ?t ! i ! j)
                           [0 ..< length (?t ! i)])
                 [0 ..< length ?t])"
    by (rule Cons.IH)
  moreover have "map (\<lambda>i. map (\<lambda>j. if (i, j) \<in> set rcs then v else ?t ! i ! j)
                           [0 ..< length (?t ! i)])
                   [0 ..< length ?t]
               = map (\<lambda>i. map (\<lambda>j. if (i, j) \<in> set (rc # rcs) then v else t ! i ! j)
                           [0 ..< length (t ! i)])
                   [0 ..< length t]"
  proof (rule map_cong)
    show "[0 ..< length ?t] = [0 ..< length t]" by simp
  next
    fix i assume "i \<in> set [0 ..< length t]"
    then have i: "i < length t" by simp
    show "map (\<lambda>j. if (i, j) \<in> set rcs then v else ?t ! i ! j) [0 ..< length (?t ! i)]
          = map (\<lambda>j. if (i, j) \<in> set (rc # rcs) then v else t ! i ! j) [0 ..< length (t ! i)]"
    proof (rule map_cong)
      show "[0 ..< length (?t ! i)] = [0 ..< length (t ! i)]" using len [OF i] by simp
    next
      fix j assume "j \<in> set [0 ..< length (t ! i)]"
      then have "j < length (t ! i)" by simp
      then show "(if (i, j) \<in> set rcs then v else ?t ! i ! j)
                 = (if (i, j) \<in> set (rc # rcs) then v else t ! i ! j)"
        using i r rc by (auto simp: nth_list_update)
    qed
  qed
  ultimately show ?case using r rc by simp
qed

text \<open>
  C6.  When the sampler exposes the on-device probability tensors
  (\<open>include_gpu_probs_tensor\<close>, which is also the value of
  \<open>_should_modify_greedy_probs_inplace\<close>), the greedy branch returns the \<open>argmax\<close> of each
  greedy row of the log-probabilities, leaves the log-probability tensor as it was, and
  overwrites each greedy row of the probability tensor by the one-hot vector of its
  sampled token: 1 at that index and 0 at every other.  The rows that are not greedy rows
  keep their probabilities.
\<close>

theorem greedy_probs_pinned:
  assumes "include_gpu_probs_tensor self"
    and "length probs = length logprobs'"
    and "\<And>i. i < length probs \<Longrightarrow> length (probs ! i) = length (logprobs' ! i)"
    and "\<And>i. i \<in> set idxs \<Longrightarrow> i < length logprobs' \<and> logprobs' ! i \<noteq> []"
  shows "\<exists>samples probs2 ids.
           sample_with_torch_greedy (include_gpu_probs_tensor self)
               (should_modify_greedy_probs_inplace self) logprobs' probs idxs
             = Inr (samples, logprobs', probs2, ids)
           \<and> length samples = length idxs
           \<and> length probs2 = length probs
           \<and> (\<forall>k < length idxs.
                 argmax (logprobs' ! (idxs ! k)) = Inr (samples ! k)
               \<and> length (probs2 ! (idxs ! k)) = length (probs ! (idxs ! k))
               \<and> (\<forall>j < length (probs ! (idxs ! k)).
                     probs2 ! (idxs ! k) ! j = (if j = samples ! k then Fin 1 else Fin 0)))
           \<and> (\<forall>i < length probs. i \<notin> set idxs \<longrightarrow> probs2 ! i = probs ! i)"
proof -
  define g where "g i = projr (argmax (logprobs' ! i))" for i
  have g: "argmax (logprobs' ! i) = Inr (g i)" if "i \<in> set idxs" for i
    using argmax_nonempty [of "logprobs' ! i"] assms(4) [OF that] by (auto simp: g_def)
  have g_lt: "g i < length (probs ! i)" if "i \<in> set idxs" for i
    using argmax_greatest [OF g [OF that]] assms(2,3,4) that by simp
  define samples where "samples = map g idxs"
  have am: "mapM (\<lambda>i. bind (item logprobs' i) argmax) idxs = Inr samples"
    unfolding samples_def using assms(4) g by (intro mapM_total) simp
  define probs1 where
    "probs1 = map (\<lambda>i. if i \<in> set idxs then replicate (length (probs ! i)) (Fin 0) else probs ! i)
                [0 ..< length probs]"
  have z: "zero_rows probs idxs = Inr probs1"
    unfolding probs1_def using assms(2,4) by (intro zero_rows_value) simp
  have len1: "length probs1 = length probs"
    by (simp add: probs1_def)
  have row1: "length (probs1 ! i) = length (probs ! i)" if "i < length probs" for i
    using that by (simp add: probs1_def)
  have zipg: "zip idxs samples = map (\<lambda>i. (i, g i)) idxs"
    by (simp add: samples_def zip_map2 zip_same_conv_map)
  define probs2 where
    "probs2 = map (\<lambda>i. map (\<lambda>j. if (i, j) \<in> set (zip idxs samples) then Fin 1
                                 else probs1 ! i ! j)
                          [0 ..< length (probs1 ! i)])
                [0 ..< length probs1]"
  have "\<forall>(r, c) \<in> set (zip idxs samples). r < length probs1 \<and> c < length (probs1 ! r)"
    using assms(2,4) g_lt by (auto simp: zipg len1 row1)
  then have ip: "index_put probs1 (zip idxs samples) (Fin 1) = Inr probs2"
    unfolding probs2_def by (rule index_put_value)
  have run: "sample_with_torch_greedy (include_gpu_probs_tensor self)
               (should_modify_greedy_probs_inplace self) logprobs' probs idxs
             = Inr (samples, logprobs', probs2,
                    map_of (rev (zip idxs samples)))"
    using assms(1) am z ip
    by (simp add: sample_with_torch_greedy_def should_modify_greedy_probs_inplace_def
        modify_greedy_probs_inplace_def samples_def)
  have in_zip: "(i, j) \<in> set (zip idxs samples) \<longleftrightarrow> i \<in> set idxs \<and> j = g i" for i j
    by (auto simp: zipg)
  have rows: "argmax (logprobs' ! (idxs ! k)) = Inr (samples ! k)
               \<and> length (probs2 ! (idxs ! k)) = length (probs ! (idxs ! k))
               \<and> (\<forall>j < length (probs ! (idxs ! k)).
                     probs2 ! (idxs ! k) ! j = (if j = samples ! k then Fin 1 else Fin 0))"
    if k: "k < length idxs" for k
  proof -
    have mem: "idxs ! k \<in> set idxs" using k by simp
    then have lt: "idxs ! k < length probs" using assms(2,4) by simp
    have sk: "samples ! k = g (idxs ! k)" using k by (simp add: samples_def)
    have "probs1 ! (idxs ! k) ! j = Fin 0" if "j < length (probs ! (idxs ! k))" for j
      using that lt mem by (simp add: probs1_def)
    then show ?thesis
      using g [OF mem] lt mem sk
      by (simp add: probs2_def len1 row1 in_zip)
  qed
  have frame: "probs2 ! i = probs ! i" if "i < length probs" "i \<notin> set idxs" for i
  proof -
    have "probs1 ! i = probs ! i" using that by (simp add: probs1_def)
    then show ?thesis
      using that by (simp add: probs2_def len1 in_zip map_nth)
  qed
  show ?thesis
    using run rows frame by (intro exI [of _ samples] exI [of _ probs2]
        exI [of _ "map_of (rev (zip idxs samples))"]) (simp add: samples_def probs2_def len1)
qed

theorem greedy_probs_pinned_witness:
  "sample_with_torch_greedy True True
       [[Fin (- 2), Fin (- 1), Fin (- 3)], [Fin (- 1), Fin (- 2), Fin (- 3)]]
       [[Fin (1 / 4), Fin (1 / 2), Fin (1 / 4)], [Fin (1 / 2), Fin (1 / 4), Fin (1 / 4)]] [0]
     = Inr ([1],
            [[Fin (- 2), Fin (- 1), Fin (- 3)], [Fin (- 1), Fin (- 2), Fin (- 3)]],
            [[Fin 0, Fin 1, Fin 0], [Fin (1 / 2), Fin (1 / 4), Fin (1 / 4)]],
            [0 \<mapsto> 1])"
proof -
  let ?self = "\<lparr>include_gpu_probs_tensor = True, stored = None\<rparr>"
  let ?lp = "[[Fin (- 2), Fin (- 1), Fin (- 3)], [Fin (- 1), Fin (- 2), Fin (- 3)]]"
  let ?p = "[[Fin (1 / 4), Fin (1 / 2), Fin (1 / 4)], [Fin (1 / 2), Fin (1 / 4), Fin (1 / 4)]]"
  have h1: "include_gpu_probs_tensor ?self" by simp
  have h2: "length ?p = length ?lp" by simp
  have h3: "\<And>i. i < length ?p \<Longrightarrow> length (?p ! i) = length (?lp ! i)"
    by (auto simp: less_Suc_eq)
  have h4: "\<And>i. i \<in> set [0::nat] \<Longrightarrow> i < length ?lp \<and> ?lp ! i \<noteq> []"
    by simp
  have ex: "\<exists>samples probs2 ids.
      sample_with_torch_greedy (include_gpu_probs_tensor ?self)
        (should_modify_greedy_probs_inplace ?self) ?lp ?p [0] = Inr (samples, ?lp, probs2, ids)"
    using greedy_probs_pinned [OF h1 h2 h3 h4] by blast
  have ev: "sample_with_torch_greedy True True ?lp ?p [0]
            = Inr ([1], ?lp, [[Fin 0, Fin 1, Fin 0], [Fin (1 / 2), Fin (1 / 4), Fin (1 / 4)]],
                   [0 \<mapsto> 1])"
    by (simp add: sample_with_torch_greedy_def modify_greedy_probs_inplace_def argmax_def)
  from ex ev show ?thesis by simp
qed

subsection \<open>Sorting\<close>

lemma sort_key_desc_le: "sort_key_desc a \<le> sort_key_desc b \<longleftrightarrow> sort_key_fl b \<le> sort_key_fl a"
  by (cases a; cases b) auto

lemma sort_pairs_mset: "mset (sort_pairs key row) = mset (zip row [0 ..< length row])"
  by (simp add: sort_pairs_def)

lemma sort_pairs_length [simp]: "length (sort_pairs key row) = length row"
  by (simp add: sort_pairs_def)

lemma sort_pairs_set: "set (sort_pairs key row) = set (zip row [0 ..< length row])"
  by (simp add: sort_pairs_def)

lemma sort_pairs_mem:
  assumes "p \<in> set (sort_pairs key row)"
  shows "snd p < length row \<and> fst p = row ! snd p"
proof -
  obtain k where "k < length row" "p = (row ! k, [0 ..< length row] ! k)"
    using assms by (auto simp: sort_pairs_set set_zip)
  then show ?thesis by simp
qed

lemma sort_pairs_nth:
  assumes "q < length row"
  shows "snd (sort_pairs key row ! q) < length row"
    and "fst (sort_pairs key row ! q) = row ! snd (sort_pairs key row ! q)"
  using sort_pairs_mem [where p = "sort_pairs key row ! q" and key = key and row = row] assms
  by simp_all

lemma sort_pairs_indices: "mset (map snd (sort_pairs key row)) = mset [0 ..< length row]"
proof -
  have "mset (map snd (sort_pairs key row)) = mset (map snd (zip row [0 ..< length row]))"
    using sort_pairs_mset [where key = key and row = row] by (metis mset_map)
  then show ?thesis by simp
qed

lemma sort_pairs_distinct: "distinct (map snd (sort_pairs key row))"
  using sort_pairs_indices [where key = key and row = row]
  by (metis distinct_upt mset_eq_imp_distinct_iff)

lemma sort_pairs_indices_set: "set (map snd (sort_pairs key row)) = {0 ..< length row}"
  using sort_pairs_indices [where key = key and row = row] by (metis mset_eq_setD set_upt)

lemma sort_pairs_sorted: "sorted (map (\<lambda>p. key (fst p)) (sort_pairs key row))"
  by (simp add: sort_pairs_def)

lemma sort_pairs_mono:
  assumes "p \<le> q" "q < length row"
  shows "key (fst (sort_pairs key row ! p)) \<le> key (fst (sort_pairs key row ! q))"
  using sorted_nth_mono [OF sort_pairs_sorted [where key = key and row = row], of p q] assms
  by simp

subsection \<open>C7: beam search in the prompt phase\<close>

lemma topk_indices_props:
  assumes "k \<le> length row"
  defines "ids \<equiv> take k (map snd (sort_pairs sort_key_desc row))"
  shows "length ids = k" and "distinct ids" and "\<forall>i \<in> set ids. i < length row"
    and "\<forall>i \<in> set ids. \<forall>j < length row. j \<notin> set ids
           \<longrightarrow> sort_key_fl (row ! j) \<le> sort_key_fl (row ! i)"
proof -
  let ?sp = "sort_pairs sort_key_desc row"
  show "length ids = k" using assms by simp
  show "distinct ids" unfolding ids_def by (rule distinct_take [OF sort_pairs_distinct])
  show "\<forall>i \<in> set ids. i < length row"
    using sort_pairs_indices_set [where key = sort_key_desc and row = row] unfolding ids_def
    by (auto dest!: in_set_takeD)
  show "\<forall>i \<in> set ids. \<forall>j < length row. j \<notin> set ids
           \<longrightarrow> sort_key_fl (row ! j) \<le> sort_key_fl (row ! i)"
  proof (intro ballI allI impI)
    fix i j assume i: "i \<in> set ids" and j: "j < length row" "j \<notin> set ids"
    obtain p where p: "p < k" "p < length row" "i = snd (?sp ! p)"
      using i unfolding ids_def by (auto simp: in_set_conv_nth)
    have "j \<in> set (map snd ?sp)"
      using j(1) sort_pairs_indices_set [where key = sort_key_desc and row = row] by simp
    then obtain q where q: "q < length row" "j = snd (?sp ! q)"
      by (auto simp: in_set_conv_nth)
    have "\<not> q < k"
    proof
      assume "q < k"
      then have "j \<in> set ids"
        unfolding ids_def using q by (auto simp: in_set_conv_nth intro!: exI [of _ q])
      with j(2) show False by simp
    qed
    then have "p \<le> q" using p(1) by simp
    then have "sort_key_desc (fst (?sp ! p)) \<le> sort_key_desc (fst (?sp ! q))"
      using q(1) by (rule sort_pairs_mono)
    then show "sort_key_fl (row ! j) \<le> sort_key_fl (row ! i)"
      using sort_pairs_nth(2) [OF p(2), where key = sort_key_desc]
        sort_pairs_nth(2) [OF q(1), where key = sort_key_desc]
        p(3) q(2)
      by (simp add: sort_key_desc_le del: sort_key_fl.simps sort_key_desc.simps)
  qed
qed

lemma beam_search_group_prompt:
  assumes "is_prompt g" "beam_search_group g lp idx = Inr r"
  shows "length (seq_ids g) = 1 \<and> idx < length lp
       \<and> 2 * best_of (sampling_params g) \<le> length (lp ! idx)
       \<and> r = (take (2 * best_of (sampling_params g)) (map snd (sort_pairs sort_key_desc (lp ! idx))),
              replicate (2 * best_of (sampling_params g)) 0)"
proof -
  have n: "length (seq_ids g) = 1"
    using assms by (auto simp: beam_search_group_def Let_def split: if_splits)
  obtain row where row: "item (slice lp idx 1) 0 = Inr row"
     and tk: "bind (topk row (2 * best_of (sampling_params g)))
                (\<lambda>(_, next_token_ids).
                   Inr (next_token_ids, replicate (2 * best_of (sampling_params g)) 0)) = Inr r"
    using assms n by (auto simp: beam_search_group_def Let_def bind_eq_Inr)
  have idx: "idx < length lp" "row = lp ! idx"
    using row by (auto simp: item_eq_Inr slice_def)
  show ?thesis
    using tk n idx by (auto simp: topk_def bind_eq_Inr split: if_splits)
qed

lemma beam_search_group_prompt_total:
  assumes "is_prompt g" "length (seq_ids g) = 1" "idx < length lp"
    "2 * best_of (sampling_params g) \<le> length (lp ! idx)"
  shows "beam_search_group g lp idx
         = Inr (take (2 * best_of (sampling_params g)) (map snd (sort_pairs sort_key_desc (lp ! idx))),
                replicate (2 * best_of (sampling_params g)) 0)"
proof -
  have "item (slice lp idx 1) 0 = Inr (lp ! idx)"
    using assms(3) by (simp add: item_def slice_def)
  then show ?thesis
    using assms by (simp add: beam_search_group_def Let_def topk_def)
qed

lemma beam_search_loop_at:
  assumes "beam_search_loop (pre @ g # post) lp idx = Inr rs" "do_sample g"
  shows "beam_search_group g lp (idx + rows_before pre) = Inr (rs ! length pre)"
  using assms(1)
proof (induction pre arbitrary: idx rs)
  case Nil
  then show ?case using assms(2) by (auto simp: bind_eq_Inr rows_before_def)
next
  case (Cons h pre)
  show ?case
  proof (cases "do_sample h")
    case True
    then obtain rs' where "beam_search_loop (pre @ g # post) lp (idx + length (seq_ids h)) = Inr rs'"
      and "rs = (rs ! 0) # rs'"
      using Cons.prems by (auto simp: bind_eq_Inr)
    then show ?thesis
      using Cons.IH [of "idx + length (seq_ids h)" rs'] True
      by (metis (no_types, lifting) add.assoc add.commute filter.simps(2) length_Cons list.simps(9)
          nth_Cons_Suc rows_before_def sum_list.Cons)
  next
    case False
    then obtain rs' where "beam_search_loop (pre @ g # post) lp idx = Inr rs'"
      and "rs = (rs ! 0) # rs'"
      using Cons.prems by (auto simp: bind_eq_Inr)
    then show ?thesis
      using Cons.IH [of idx rs'] False
      by (metis filter.simps(2) length_Cons nth_Cons_Suc rows_before_def)
  qed
qed

text \<open>
  C7.  Take a beam-search group \<open>g\<close> in the prompt phase that is sampled, with beam width
  \<open>B = best_of\<close>.  Whenever \<open>_beam_search_sample\<close> returns for a batch that contains \<open>g\<close>,
  the group has a single parent sequence, its row has at least \<open>2B\<close> entries, and its
  result is the pair of exactly \<open>2B\<close> token ids and \<open>2B\<close> parent ids 0; the token ids are
  distinct indices of the row, and no entry outside them is greater than an entry among
  them (they are the \<open>2B\<close> largest entries).  And the function does return: for a single
  parent and a row with at least \<open>2B\<close> entries, the batch made of this group returns that
  result.
\<close>

theorem beam_prompt_expands_to_2B:
  assumes "do_sample g" and "is_prompt g" and "best_of (sampling_params g) = B"
  shows "(\<forall>pre post lp rs.
            beam_search_sample (pre @ g # post) lp = Inr rs \<longrightarrow>
            (\<exists>row ids. length (seq_ids g) = 1
               \<and> item lp (rows_before pre) = Inr row \<and> 2 * B \<le> length row
               \<and> rs ! length pre = (ids, replicate (2 * B) 0)
               \<and> length ids = 2 * B \<and> distinct ids \<and> (\<forall>i \<in> set ids. i < length row)
               \<and> (\<forall>i \<in> set ids. \<forall>j < length row. j \<notin> set ids
                     \<longrightarrow> sort_key_fl (row ! j) \<le> sort_key_fl (row ! i))))
       \<and> (\<forall>row. length (seq_ids g) = 1 \<and> 2 * B \<le> length row \<longrightarrow>
            (\<exists>ids. beam_search_sample [g] [row] = Inr [(ids, replicate (2 * B) 0)]
               \<and> length ids = 2 * B))"
proof (intro conjI allI impI)
  fix pre post lp rs
  assume ret: "beam_search_sample (pre @ g # post) lp = Inr rs"
  let ?i = "rows_before pre"
  have grp: "beam_search_group g lp ?i = Inr (rs ! length pre)"
    using beam_search_loop_at [of pre g post lp 0 rs] ret assms(1)
    by (simp add: beam_search_sample_def)
  note p = beam_search_group_prompt [OF assms(2) grp]
  let ?ids = "take (2 * B) (map snd (sort_pairs sort_key_desc (lp ! ?i)))"
  have k: "2 * B \<le> length (lp ! ?i)" using p assms(3) by simp
  show "\<exists>row ids. length (seq_ids g) = 1
               \<and> item lp (rows_before pre) = Inr row \<and> 2 * B \<le> length row
               \<and> rs ! length pre = (ids, replicate (2 * B) 0)
               \<and> length ids = 2 * B \<and> distinct ids \<and> (\<forall>i \<in> set ids. i < length row)
               \<and> (\<forall>i \<in> set ids. \<forall>j < length row. j \<notin> set ids
                     \<longrightarrow> sort_key_fl (row ! j) \<le> sort_key_fl (row ! i))"
    using p assms(3) topk_indices_props [OF k]
    by (intro exI [of _ "lp ! ?i"] exI [of _ ?ids]) (simp del: sort_key_fl.simps)
next
  fix row :: "fl list"
  assume h: "length (seq_ids g) = 1 \<and> 2 * B \<le> length row"
  have "beam_search_group g [row] 0
        = Inr (take (2 * B) (map snd (sort_pairs sort_key_desc row)), replicate (2 * B) 0)"
    using beam_search_group_prompt_total [of g 0 "[row]"] assms h by simp
  then show "\<exists>ids. beam_search_sample [g] [row] = Inr [(ids, replicate (2 * B) 0)]
               \<and> length ids = 2 * B"
    using assms(1) h by (simp add: beam_search_sample_def)
qed

theorem beam_prompt_expands_to_2B_witness:
  "beam_search_sample [beam_group0] [[Fin (- 3), Fin (- 1), Fin (- 5), Fin (- 2), Fin (- 4)]]
     = Inr [([1, 3, 0, 4], [0, 0, 0, 0])]"
proof -
  let ?row = "[Fin (- 3), Fin (- 1), Fin (- 5), Fin (- 2), Fin (- 4)]"
  have h1: "do_sample beam_group0" and h2: "is_prompt beam_group0"
    and h3: "best_of (sampling_params beam_group0) = 2"
    by (simp_all add: beam_group0_def params0_def)
  have h4: "length (seq_ids beam_group0) = 1 \<and> 2 * 2 \<le> length ?row"
    by (simp add: beam_group0_def)
  obtain ids where ids: "beam_search_sample [beam_group0] [?row] = Inr [(ids, replicate (2 * 2) 0)]"
    using beam_prompt_expands_to_2B [OF h1 h2 h3] h4 by blast
  have "take 4 (map snd (sort_pairs sort_key_desc ?row)) = [1, 3, 0, 4]"
    by code_simp
  then have "beam_search_sample [beam_group0] [?row] = Inr [([1, 3, 0, 4], [0, 0, 0, 0])]"
    using h1 h2 h3 h4
    by (simp add: beam_search_sample_def beam_search_group_def topk_def slice_def
        numeral_eq_Suc)
  then show ?thesis using ids by simp
qed

subsection \<open>C5: the penalty stage with neutral coefficients\<close>

lemma fdiv_one [simp]: "fdiv l (Fin 1) = l"
  by (cases l) simp_all

lemma fmul_one [simp]: "fmul l (Fin 1) = l"
  by (cases l) simp_all

lemma fsub_zero [simp]: "fsub l (Fin 0) = l"
  by (cases l) (simp_all add: fsub_def)

lemma map_zip_fst_id:
  assumes "length xs \<le> length ys" and "\<And>x y. (x, y) \<in> set (zip xs ys) \<Longrightarrow> f (x, y) = x"
  shows "map f (zip xs ys) = xs"
  using assms
proof (induction xs arbitrary: ys)
  case Nil
  show ?case by simp
next
  case (Cons x xs)
  then show ?case by (cases ys) auto
qed

lemma in_zip3D:
  "(a, b, c) \<in> set (zip as (zip bs cs)) \<Longrightarrow> a \<in> set as \<and> b \<in> set bs \<and> c \<in> set cs"
  by (meson set_zip_leftD set_zip_rightD)

lemma in_zip4D:
  "(a, b, c, d) \<in> set (zip as (zip bs (zip cs ds)))
     \<Longrightarrow> a \<in> set as \<and> b \<in> set bs \<and> c \<in> set cs \<and> d \<in> set ds"
  by (meson set_zip_leftD set_zip_rightD)

lemma get_bin_counts_and_mask_shape:
  assumes "length tokens \<le> n" and "\<forall>row \<in> set tokens. \<forall>t \<in> set row. t \<le> V"
  obtains counts mask where "get_bin_counts_and_mask tokens V n = Inr (counts, mask)"
    and "length counts = n" and "length mask = n"
    and "\<forall>c \<in> set counts. length c = V" and "\<forall>m \<in> set mask. length m = V"
proof -
  have "\<not> (n < length tokens \<or> (\<exists>row \<in> set tokens. \<exists>t \<in> set row. V < t))"
    using assms by (auto simp: not_less)
  then show ?thesis
    by (intro that) (auto simp: get_bin_counts_and_mask_def Let_def)
qed

text \<open>
  C5 (amended).  When, for every row, the frequency and presence coefficients are 0 and
  the repetition coefficient is 1, the penalty stage returns the logits tensor it was
  given.  (The tensors are aligned with the batch and the token ids are at most the
  padding id.)
\<close>

theorem penalties_neutral_identity:
  assumes rect: "\<forall>row \<in> set logits. length row = vocab_size_of logits"
    and shape: "length prompt \<le> length logits" "length output \<le> length logits"
      "length pres = length logits" "length freq = length logits" "length rep = length logits"
    and ids: "\<forall>row \<in> set prompt. \<forall>t \<in> set row. t \<le> vocab_size_of logits"
      "\<forall>row \<in> set output. \<forall>t \<in> set row. t \<le> vocab_size_of logits"
    and neutral: "\<forall>r \<in> set rep. r = 1" "\<forall>f \<in> set freq. f = 0" "\<forall>p \<in> set pres. p = 0"
  shows "apply_penalties logits prompt output pres freq rep = Inr logits"
proof -
  let ?n = "length logits" and ?V = "vocab_size_of logits"
  obtain pc pm where p: "get_bin_counts_and_mask prompt ?V ?n = Inr (pc, pm)"
    and pm: "length pm = ?n" "\<forall>m \<in> set pm. length m = ?V"
    using get_bin_counts_and_mask_shape [OF shape(1) ids(1)] by metis
  obtain oc om where out: "get_bin_counts_and_mask output ?V ?n = Inr (oc, om)"
    and oc: "length oc = ?n" "\<forall>c \<in> set oc. length c = ?V"
    and om: "length om = ?n" "\<forall>m \<in> set om. length m = ?V"
    using get_bin_counts_and_mask_shape [OF shape(2) ids(2)] by metis
  have s1: "map (\<lambda>(row, r, pm, om).
                   map (\<lambda>(l, p, m). repetition_step r p m l) (zip row (zip pm om)))
              (zip logits (zip rep (zip pm om))) = logits"
  proof (rule map_zip_fst_id)
    show "length logits \<le> length (zip rep (zip pm om))"
      using shape pm om by simp
  next
    fix row y assume mem: "(row, y) \<in> set (zip logits (zip rep (zip pm om)))"
    obtain r pmr omr where y: "y = (r, pmr, omr)" by (cases y)
    have r: "r = 1" and "pmr \<in> set pm" "omr \<in> set om" "row \<in> set logits"
      using in_zip4D [of row r pmr omr logits rep pm om] mem y neutral(1) by auto
    then have len: "length row \<le> length (zip pmr omr)"
      using rect pm om by simp
    have "map (\<lambda>(l, p, m). repetition_step r p m l) (zip row (zip pmr omr)) = row"
      using len by (rule map_zip_fst_id) (auto simp: repetition_step_def r)
    then show "(case (row, y) of (row, r, pm, om) \<Rightarrow>
                  map (\<lambda>(l, p, m). repetition_step r p m l) (zip row (zip pm om))) = row"
      by (simp add: y)
  qed
  have s2: "map (\<lambda>(row, f, counts). map (\<lambda>(l, c). frequency_step f c l) (zip row counts))
              (zip logits (zip freq oc)) = logits"
  proof (rule map_zip_fst_id)
    show "length logits \<le> length (zip freq oc)"
      using shape oc by simp
  next
    fix row y assume mem: "(row, y) \<in> set (zip logits (zip freq oc))"
    obtain f counts where y: "y = (f, counts)" by (cases y)
    have f: "f = 0" and "counts \<in> set oc" "row \<in> set logits"
      using in_zip3D [of row f counts logits freq oc] mem y neutral(2) by auto
    then have len: "length row \<le> length counts"
      using rect oc by simp
    have "map (\<lambda>(l, c). frequency_step f c l) (zip row counts) = row"
      using len by (rule map_zip_fst_id) (auto simp: frequency_step_def f)
    then show "(case (row, y) of (row, f, counts) \<Rightarrow>
                  map (\<lambda>(l, c). frequency_step f c l) (zip row counts)) = row"
      by (simp add: y)
  qed
  have s3: "map (\<lambda>(row, p, om). map (\<lambda>(l, m). presence_step p m l) (zip row om))
              (zip logits (zip pres om)) = logits"
  proof (rule map_zip_fst_id)
    show "length logits \<le> length (zip pres om)"
      using shape om by simp
  next
    fix row y assume mem: "(row, y) \<in> set (zip logits (zip pres om))"
    obtain q omr where y: "y = (q, omr)" by (cases y)
    have q: "q = 0" and "omr \<in> set om" "row \<in> set logits"
      using in_zip3D [of row q omr logits pres om] mem y neutral(3) by auto
    then have len: "length row \<le> length omr"
      using rect om by simp
    have "map (\<lambda>(l, m). presence_step q m l) (zip row omr) = row"
      using len by (rule map_zip_fst_id) (auto simp: presence_step_def q)
    then show "(case (row, y) of (row, p, om) \<Rightarrow>
                  map (\<lambda>(l, m). presence_step p m l) (zip row om)) = row"
      by (simp add: y)
  qed
  show ?thesis
    using shape by (simp add: apply_penalties_def Let_def p out s1 s2 s3)
qed

theorem penalties_neutral_identity_witness:
  "apply_penalties [[Fin 1, Fin (- 1), NInf]] [[3]] [[0, 1, 2, 1]] [0] [0] [1]
     = Inr [[Fin 1, Fin (- 1), NInf]]"
  by (rule penalties_neutral_identity) (simp_all add: vocab_size_of_def)

theorem penalties_all_zero_counterexample:
  "apply_penalties [[Fin (- 1)]] [[1]] [[0]] [0] [0] [0] \<noteq> Inr [[Fin (- 1)]]"
  by (simp add: apply_penalties_def get_bin_counts_and_mask_def vocab_size_of_def
      repetition_step_def frequency_step_def presence_step_def fgt_def)

subsection \<open>C4: temperature scaling\<close>

text \<open>
  C4.  The temperature step of \<open>forward\<close> divides every logit of every row by that row's
  entry of the temperatures tensor.  On the tensor that the builder makes of the policy
  temperatures, a row whose policy temperature is not 0 has every logit divided by that
  temperature, a row whose policy temperature is 0 comes out as it went in, and no divisor
  is 0.  The quotient is that of the model of tensor entries: exact on finite values.
\<close>

theorem temperature_divides_every_row:
  assumes "length policy_temperatures = length logits"
  shows "\<exists>out. apply_temperature logits (spec_temperatures policy_temperatures) = Inr out
           \<and> length out = length logits
           \<and> (\<forall>i < length logits.
                 out ! i = map (\<lambda>l. fdiv l (Fin (spec_temperatures policy_temperatures ! i)))
                             (logits ! i)
               \<and> spec_temperatures policy_temperatures ! i \<noteq> 0
               \<and> (policy_temperatures ! i \<noteq> 0 \<longrightarrow>
                    out ! i = map (\<lambda>l. fdiv l (Fin (policy_temperatures ! i))) (logits ! i))
               \<and> (policy_temperatures ! i = 0 \<longrightarrow> out ! i = logits ! i))"
proof -
  let ?ts = "spec_temperatures policy_temperatures"
  let ?out = "map (\<lambda>(row, t). map (\<lambda>l. fdiv l (Fin t)) row) (zip logits ?ts)"
  have len: "length ?ts = length logits" using assms by (simp add: spec_temperatures_def)
  have run: "apply_temperature logits ?ts = Inr ?out"
    using len by (simp add: apply_temperature_def)
  have row: "?out ! i = map (\<lambda>l. fdiv l (Fin (?ts ! i))) (logits ! i)"
    if "i < length logits" for i
    using that len by simp
  have entry: "?ts ! i = (if policy_temperatures ! i = 0 then 1 else policy_temperatures ! i)"
    if "i < length logits" for i
    using that assms by (simp add: spec_temperatures_def)
  have "?out ! i = map (\<lambda>l. fdiv l (Fin (?ts ! i))) (logits ! i)
        \<and> ?ts ! i \<noteq> 0
        \<and> (policy_temperatures ! i \<noteq> 0 \<longrightarrow>
             ?out ! i = map (\<lambda>l. fdiv l (Fin (policy_temperatures ! i))) (logits ! i))
        \<and> (policy_temperatures ! i = 0 \<longrightarrow> ?out ! i = logits ! i)"
    if "i < length logits" for i
    unfolding row [OF that] entry [OF that] by (simp add: map_idI)
  then show ?thesis
    using run len by (intro exI [of _ ?out]) simp
qed

theorem temperature_divides_every_row_witness:
  "apply_temperature [[Fin 1, Fin (- 2)], [Fin 3, NInf]] (spec_temperatures [2, 0])
     = Inr [[Fin (1 / 2), Fin (- 1)], [Fin 3, NInf]]"
proof -
  have h: "length [2, 0 :: real] = length [[Fin 1, Fin (- 2)], [Fin 3, NInf]]" by simp
  have "\<exists>out. apply_temperature [[Fin 1, Fin (- 2)], [Fin 3, NInf]] (spec_temperatures [2, 0])
                 = Inr out"
    using temperature_divides_every_row [OF h] by blast
  then show ?thesis by (simp add: apply_temperature_def spec_temperatures_def)
qed

subsection \<open>C1: the order of the transforms and the minimum-token gate\<close>

lemma index_put_in_range:
  assumes "index_put t rcs v = Inr t'"
  shows "\<forall>(r, c) \<in> set rcs. r < length t \<and> c < length (t ! r)"
  using assms
proof (induction rcs arbitrary: t)
  case Nil
  show ?case by simp
next
  case (Cons rc rcs)
  obtain r c where rc: "rc = (r, c)" by (cases rc)
  let ?t = "t[r := (t ! r)[c := v]]"
  have r: "r < length t" "c < length (t ! r)" and rest: "index_put ?t rcs v = Inr t'"
    using Cons.prems rc by (auto split: if_splits)
  have len: "length (?t ! i) = length (t ! i)" if "i < length t" for i
    using that by (cases "i = r") simp_all
  have "\<forall>(r', c') \<in> set rcs. r' < length ?t \<and> c' < length (?t ! r')"
    by (rule Cons.IH [OF rest])
  then show ?case using r rc len by auto
qed

lemma index_put_result:
  assumes "index_put t rcs v = Inr t'"
  shows "length t' = length t"
    and "\<And>r. r < length t \<Longrightarrow> length (t' ! r) = length (t ! r)"
    and "\<And>r c. (r, c) \<in> set rcs \<Longrightarrow> t' ! r ! c = v"
    and "\<And>r c. r < length t \<Longrightarrow> c < length (t ! r) \<Longrightarrow> (r, c) \<notin> set rcs
           \<Longrightarrow> t' ! r ! c = t ! r ! c"
proof -
  note rng = index_put_in_range [OF assms]
  have t': "t' = map (\<lambda>i. map (\<lambda>j. if (i, j) \<in> set rcs then v else t ! i ! j)
                            [0 ..< length (t ! i)]) [0 ..< length t]"
    using index_put_value [OF rng, of v] assms by simp
  show "length t' = length t" by (simp add: t')
  show "\<And>r. r < length t \<Longrightarrow> length (t' ! r) = length (t ! r)" by (simp add: t')
  show "\<And>r c. (r, c) \<in> set rcs \<Longrightarrow> t' ! r ! c = v"
    using rng by (auto simp: t')
  show "\<And>r c. r < length t \<Longrightarrow> c < length (t ! r) \<Longrightarrow> (r, c) \<notin> set rcs
           \<Longrightarrow> t' ! r ! c = t ! r ! c"
    by (simp add: t')
qed

lemma min_tokens_loop_collects:
  assumes "min_tokens_loop gs acc n = Inr (pairs, m)"
  shows "set acc \<subseteq> set pairs
       \<and> (\<forall>g start rest j d tok.
             g \<in> set gs \<and> do_sample g \<and> sample_indices g = start # rest
             \<and> j < length (seq_ids g) \<and> seq_data g (seq_ids g ! j) = Some d
             \<and> int (length (output_token_ids_array d)) < min_tokens (sampling_params g)
             \<and> tok \<in> set (all_stop_token_ids (sampling_params g))
             \<longrightarrow> (start + j, tok) \<in> set pairs)"
  using assms
proof (induction gs arbitrary: acc n)
  case Nil
  then show ?case by simp
next
  case (Cons h gs)
  let ?n1 = "n + length (sample_indices h) + length (prompt_logprob_indices h)"
  let ?sp = "sampling_params h"
  let ?f = "\<lambda>(j, seq_id). case seq_data h seq_id of
               None \<Rightarrow> Inl KeyError
             | Some d \<Rightarrow> Inr (j, int (length (output_token_ids_array d)) < min_tokens ?sp)"
  let ?js = "zip [0 ..< length (seq_ids h)] (seq_ids h)"
  consider (skip) "\<not> do_sample h \<or> \<not> (0 < min_tokens ?sp \<and> all_stop_token_ids ?sp \<noteq> [])"
      "min_tokens_loop gs acc ?n1 = Inr (pairs, m)"
    | (pen) start rest below where "do_sample h" "sample_indices h = start # rest"
      "0 < min_tokens ?sp" "all_stop_token_ids ?sp \<noteq> []"
      "mapM ?f ?js = Inr below"
      "min_tokens_loop gs
         (acc @ List.product (map (\<lambda>(j, _). start + j) (filter snd below))
                  (all_stop_token_ids ?sp)) ?n1 = Inr (pairs, m)"
    using Cons.prems
    by (auto simp: Let_def bind_eq_Inr split: if_splits list.splits)
  then show ?case
  proof cases
    case skip
    note IH = Cons.IH [OF skip(2)]
    have "(start + j, tok) \<in> set pairs"
      if "g \<in> set (h # gs)" "do_sample g" "sample_indices g = start # rest"
        "j < length (seq_ids g)" "seq_data g (seq_ids g ! j) = Some d"
        "int (length (output_token_ids_array d)) < min_tokens (sampling_params g)"
        "tok \<in> set (all_stop_token_ids (sampling_params g))" for g start rest j d tok
    proof (cases "g \<in> set gs")
      case True
      then show ?thesis using IH that by blast
    next
      case False
      then have "g = h" using that(1) by simp
      then have "0 < min_tokens ?sp" "all_stop_token_ids ?sp \<noteq> []" "do_sample h"
        using that by auto
      then show ?thesis using skip(1) by simp
    qed
    then show ?thesis using IH by blast
  next
    case (pen start' rest' below)
    note IH = Cons.IH [OF pen(6)]
    have "(start + j, tok) \<in> set pairs"
      if "g \<in> set (h # gs)" "do_sample g" "sample_indices g = start # rest"
        "j < length (seq_ids g)" "seq_data g (seq_ids g ! j) = Some d"
        "int (length (output_token_ids_array d)) < min_tokens (sampling_params g)"
        "tok \<in> set (all_stop_token_ids (sampling_params g))" for g start rest j d tok
    proof (cases "g \<in> set gs")
      case True
      then show ?thesis using IH that by blast
    next
      case False
      then have gh: "g = h" using that(1) by simp
      have st: "start' = start" using pen(2) that(3) gh by simp
      have len: "length below = length ?js"
        and each: "\<And>i. i < length ?js \<Longrightarrow> ?f (?js ! i) = Inr (below ! i)"
        using pen(5) by (auto simp: mapM_Inr_iff list_all2_conv_all_nth)
      have jlt: "j < length ?js" using that(4) gh by simp
      have "?js ! j = (j, seq_ids h ! j)" using that(4) gh by simp
      then have "below ! j = (j, True)"
        using each [OF jlt] that(5,6) gh by simp
      moreover have "below ! j \<in> set below" using jlt len by simp
      ultimately have "(j, True) \<in> set (filter snd below)"
        by simp
      then have "start + j \<in> set (map (\<lambda>(j, _). start + j) (filter snd below))"
        by force
      then have "(start + j, tok)
                 \<in> set (acc @ List.product (map (\<lambda>(j, _). start' + j) (filter snd below))
                                (all_stop_token_ids ?sp))"
        using that(7) gh st by simp
      then show ?thesis using IH by blast
    qed
    moreover have "set acc \<subseteq> set pairs" using IH by auto
    ultimately show ?thesis by blast
  qed
qed

lemma bind_return: "bind m Inr = m"
  by (cases m) simp_all

lemma run_stages_Nil: "run_stages [] = Inr"
  by (rule ext) simp

lemma run_stages_Cons: "run_stages (stage # rest) = (\<lambda>x. bind (stage x) (run_stages rest))"
  by (rule ext) simp

lemma forward_logits_stages:
  "forward_logits t f md logits
   = run_stages
       [\<lambda>l. apply_min_tokens_penalty l md,
        stage_if (do_penalties f)
          (\<lambda>l. apply_penalties l (prompt_tokens t) (output_tokens t) (presence_penalties t)
                  (frequency_penalties t) (repetition_penalties t)),
        \<lambda>l. apply_temperature l (temperatures t),
        stage_if (do_top_p_top_k f) (\<lambda>l. apply_top_k_top_p l (top_ps t) (top_ks t)),
        stage_if (do_top_as f) (\<lambda>l. apply_top_a l (top_as t)),
        stage_if (do_min_p f) (\<lambda>l. apply_min_p l (min_ps t)),
        stage_if (do_tfss f) (\<lambda>l. apply_tfs l (tfss t)),
        stage_if (do_eta_cutoffs f) (\<lambda>l. apply_eta_cutoff l (eta_cutoffs t)),
        stage_if (do_epsilon_cutoffs f) (\<lambda>l. apply_epsilon_cutoff l (epsilon_cutoffs t)),
        stage_if (do_typical_ps f) (\<lambda>l. apply_typical_sampling l (typical_ps t)),
        stage_if (do_quadratic f)
          (\<lambda>l. apply_quadratic_sampling l (smoothing_factors t) (smoothing_curves t))]
       logits"
  unfolding forward_logits_def run_stages_Cons run_stages_Nil stage_if_def bind_return
  by (rule refl)

lemma min_tokens_loop_total:
  assumes "\<forall>g \<in> set gs. do_sample g \<longrightarrow>
             sample_indices g \<noteq> [] \<and> (\<forall>sid \<in> set (seq_ids g). seq_data g sid \<noteq> None)
             \<and> hd (sample_indices g) + length (seq_ids g) \<le> N
             \<and> (\<forall>tok \<in> set (all_stop_token_ids (sampling_params g)). tok < V)"
    and "\<forall>(r, c) \<in> set acc. r < N \<and> c < V"
  shows "\<exists>pairs. min_tokens_loop gs acc n
           = Inr (pairs, n + sum_list (map (\<lambda>g. length (sample_indices g)
                                              + length (prompt_logprob_indices g)) gs))
         \<and> (\<forall>(r, c) \<in> set pairs. r < N \<and> c < V)"
  using assms
proof (induction gs arbitrary: acc n)
  case Nil
  then show ?case by simp
next
  case (Cons h gs)
  let ?n1 = "n + length (sample_indices h) + length (prompt_logprob_indices h)"
  let ?sp = "sampling_params h"
  let ?tot = "\<lambda>gs. sum_list (map (\<lambda>g. length (sample_indices g)
                                       + length (prompt_logprob_indices g)) gs)"
  have tot: "n + ?tot (h # gs) = ?n1 + ?tot gs" by simp
  have rest: "\<forall>g \<in> set gs. do_sample g \<longrightarrow>
             sample_indices g \<noteq> [] \<and> (\<forall>sid \<in> set (seq_ids g). seq_data g sid \<noteq> None)
             \<and> hd (sample_indices g) + length (seq_ids g) \<le> N
             \<and> (\<forall>tok \<in> set (all_stop_token_ids (sampling_params g)). tok < V)"
    using Cons.prems(1) by simp
  show ?case
  proof (cases "do_sample h \<and> 0 < min_tokens ?sp \<and> all_stop_token_ids ?sp \<noteq> []")
    case False
    obtain pairs where "min_tokens_loop gs acc ?n1 = Inr (pairs, ?n1 + ?tot gs)"
      "\<forall>(r, c) \<in> set pairs. r < N \<and> c < V"
      using Cons.IH [OF rest Cons.prems(2), of ?n1] by blast
    moreover have "sample_indices h \<noteq> []" if "do_sample h"
      using Cons.prems(1) that by simp
    ultimately show ?thesis
      using False unfolding tot
      by (intro exI [of _ pairs]) (auto simp: Let_def split: list.splits)
  next
    case True
    obtain start rest' where si: "sample_indices h = start # rest'"
      using Cons.prems(1) True by (cases "sample_indices h") auto
    have h: "\<forall>sid \<in> set (seq_ids h). seq_data h sid \<noteq> None"
      "start + length (seq_ids h) \<le> N"
      "\<forall>tok \<in> set (all_stop_token_ids ?sp). tok < V"
      using Cons.prems(1) True si by auto
    let ?f = "\<lambda>(j, seq_id). case seq_data h seq_id of
               None \<Rightarrow> Inl KeyError
             | Some d \<Rightarrow> Inr (j, int (length (output_token_ids_array d)) < min_tokens ?sp)"
    let ?g = "\<lambda>(j, seq_id). (j, int (length (output_token_ids_array (the (seq_data h seq_id))))
                                  < min_tokens ?sp)"
    let ?js = "zip [0 ..< length (seq_ids h)] (seq_ids h)"
    have m: "mapM ?f ?js = Inr (map ?g ?js)"
    proof (rule mapM_total)
      fix x assume "x \<in> set ?js"
      then have "snd x \<in> set (seq_ids h)"
        using set_zip_rightD [of "fst x" "snd x" "[0 ..< length (seq_ids h)]" "seq_ids h"] by simp
      then show "?f x = Inr (?g x)" using h(1) by (cases x) auto
    qed
    define seqs where "seqs = map (\<lambda>(j, _). start + j) (filter snd (map ?g ?js))"
    let ?acc = "acc @ List.product seqs (all_stop_token_ids ?sp)"
    have fstg: "fst p < length (seq_ids h)" if pm: "p \<in> set (map ?g ?js)" for p
    proof -
      obtain q where q: "q \<in> set ?js" "p = ?g q" using pm by auto
      have "fst q \<in> set [0 ..< length (seq_ids h)]"
        using set_zip_leftD [of "fst q" "snd q" "[0 ..< length (seq_ids h)]" "seq_ids h"] q(1)
        by simp
      then show ?thesis using q(2) by (cases q) simp
    qed
    have rN: "r < N" if rm: "r \<in> set seqs" for r
    proof -
      obtain p where p: "p \<in> set (filter snd (map ?g ?js))" "r = (\<lambda>(j, _). start + j) p"
        using rm unfolding seqs_def set_map by blast
      have "p \<in> set (map ?g ?js)" using p(1) by (metis filter_is_subset subsetD)
      then have "fst p < length (seq_ids h)" by (rule fstg)
      then show ?thesis using h(2) p(2) by (cases p) simp
    qed
    have acc: "\<forall>(r, c) \<in> set ?acc. r < N \<and> c < V"
      using Cons.prems(2) h(3) rN by auto
    obtain pairs where "min_tokens_loop gs ?acc ?n1 = Inr (pairs, ?n1 + ?tot gs)"
      "\<forall>(r, c) \<in> set pairs. r < N \<and> c < V"
      using Cons.IH [OF rest acc, of ?n1] by blast
    then show ?thesis
      using True si m unfolding tot seqs_def
      by (intro exI [of _ pairs]) (simp add: Let_def)
  qed
qed

lemma min_tokens_loop_idle:
  assumes "\<forall>g \<in> set gs. do_sample g \<longrightarrow> min_tokens (sampling_params g) \<le> 0"
    and "min_tokens_loop gs acc n = Inr (pairs, m)"
  shows "pairs = acc"
  using assms
proof (induction gs arbitrary: acc n)
  case Nil
  then show ?case by simp
next
  case (Cons h gs)
  let ?n1 = "n + length (sample_indices h) + length (prompt_logprob_indices h)"
  have idle: "\<not> (do_sample h \<and> 0 < min_tokens (sampling_params h))"
    using Cons.prems(1) by auto
  have "min_tokens_loop gs acc ?n1 = Inr (pairs, m)"
    using Cons.prems(2) idle by (auto simp: Let_def split: if_splits list.splits)
  moreover have "\<forall>g \<in> set gs. do_sample g \<longrightarrow> min_tokens (sampling_params g) \<le> 0"
    using Cons.prems(1) by simp
  ultimately show ?case by (rule Cons.IH [rotated])
qed

lemma min_tokens_gate_effect:
  assumes fits: "\<forall>g \<in> set (seq_groups md). do_sample g \<longrightarrow>
             sample_indices g \<noteq> [] \<and> (\<forall>sid \<in> set (seq_ids g). seq_data g sid \<noteq> None)
             \<and> hd (sample_indices g) + length (seq_ids g) \<le> length logits
             \<and> (\<forall>tok \<in> set (all_stop_token_ids (sampling_params g)). tok < V)"
    and rows: "\<forall>row \<in> set logits. length row = V"
    and total: "sum_list (map (\<lambda>g. length (sample_indices g) + length (prompt_logprob_indices g))
                      (seq_groups md)) = length logits"
  shows "\<exists>gated. apply_min_tokens_penalty logits md = Inr gated
           \<and> length gated = length logits
           \<and> (\<forall>r < length logits. \<forall>c < V. gated ! r ! c = NInf \<or> gated ! r ! c = logits ! r ! c)
           \<and> ((\<forall>g \<in> set (seq_groups md). do_sample g \<longrightarrow> min_tokens (sampling_params g) \<le> 0)
                \<longrightarrow> gated = logits)
           \<and> (\<forall>g start rest j d tok.
                 g \<in> set (seq_groups md) \<and> do_sample g \<and> sample_indices g = start # rest
                 \<and> j < length (seq_ids g) \<and> seq_data g (seq_ids g ! j) = Some d
                 \<and> int (length (output_token_ids_array d)) < min_tokens (sampling_params g)
                 \<and> tok \<in> set (all_stop_token_ids (sampling_params g))
                 \<longrightarrow> gated ! (start + j) ! tok = NInf)"
proof -
  obtain pairs where loop: "min_tokens_loop (seq_groups md) [] 0 = Inr (pairs, length logits)"
    and rng: "\<forall>(r, c) \<in> set pairs. r < length logits \<and> c < V"
    using min_tokens_loop_total [OF fits, of "[]" 0] total by auto
  have rng': "\<forall>(r, c) \<in> set pairs. r < length logits \<and> c < length (logits ! r)"
    using rng rows by auto
  define gated where
    "gated = map (\<lambda>i. map (\<lambda>j. if (i, j) \<in> set pairs then NInf else logits ! i ! j)
                           [0 ..< length (logits ! i)]) [0 ..< length logits]"
  have put: "index_put logits pairs NInf = Inr gated"
    unfolding gated_def by (rule index_put_value [OF rng'])
  have gate: "apply_min_tokens_penalty logits md = Inr gated"
    using loop put index_put_result(1) [OF put] by (simp add: apply_min_tokens_penalty_def)
  have forced: "gated ! (start + j) ! tok = NInf"
    if "g \<in> set (seq_groups md) \<and> do_sample g \<and> sample_indices g = start # rest
        \<and> j < length (seq_ids g) \<and> seq_data g (seq_ids g ! j) = Some d
        \<and> int (length (output_token_ids_array d)) < min_tokens (sampling_params g)
        \<and> tok \<in> set (all_stop_token_ids (sampling_params g))"
    for g start rest j d tok
  proof -
    have "(start + j, tok) \<in> set pairs"
      using min_tokens_loop_collects [OF loop] that by blast
    then show ?thesis by (rule index_put_result(3) [OF put])
  qed
  have frame: "gated ! r ! c = NInf \<or> gated ! r ! c = logits ! r ! c"
    if "r < length logits" "c < V" for r c
  proof (cases "(r, c) \<in> set pairs")
    case True
    then show ?thesis using index_put_result(3) [OF put] by simp
  next
    case False
    then show ?thesis using index_put_result(4) [OF put that(1)] that rows by simp
  qed
  have idle: "gated = logits"
    if "\<forall>g \<in> set (seq_groups md). do_sample g \<longrightarrow> min_tokens (sampling_params g) \<le> 0"
  proof -
    have "pairs = []" using min_tokens_loop_idle [OF that loop] .
    then show ?thesis using put by simp
  qed
  show ?thesis
    using gate frame idle forced index_put_result(1) [OF put]
    by (intro exI [of _ gated]) blast
qed

lemma min_tokens_gate_then_stages:
  assumes fits: "\<forall>g \<in> set (seq_groups md). do_sample g \<longrightarrow>
             sample_indices g \<noteq> [] \<and> (\<forall>sid \<in> set (seq_ids g). seq_data g sid \<noteq> None)
             \<and> hd (sample_indices g) + length (seq_ids g) \<le> length logits
             \<and> (\<forall>tok \<in> set (all_stop_token_ids (sampling_params g)). tok < V)"
    and rows: "\<forall>row \<in> set logits. length row = V"
    and total: "sum_list (map (\<lambda>g. length (sample_indices g) + length (prompt_logprob_indices g))
                      (seq_groups md)) = length logits"
  shows "\<exists>gated. apply_min_tokens_penalty logits md = Inr gated
          \<and> length gated = length logits
          \<and> (\<forall>r < length logits. \<forall>c < V.
                gated ! r ! c = NInf \<or> gated ! r ! c = logits ! r ! c)
          \<and> ((\<forall>g \<in> set (seq_groups md). do_sample g \<longrightarrow> min_tokens (sampling_params g) \<le> 0)
               \<longrightarrow> gated = logits)
          \<and> (\<forall>g start rest j d.
                g \<in> set (seq_groups md) \<and> do_sample g \<and> sample_indices g = start # rest
                \<and> min_tokens (sampling_params g) = 3
                \<and> 0 \<in> set (all_stop_token_ids (sampling_params g))
                \<and> j < length (seq_ids g) \<and> seq_data g (seq_ids g ! j) = Some d
                \<and> length (output_token_ids_array d) = 1
                \<longrightarrow> gated ! (start + j) ! 0 = NInf)
          \<and> forward_logits t f md logits
            = run_stages
                [stage_if (do_penalties f)
                   (\<lambda>l. apply_penalties l (prompt_tokens t) (output_tokens t)
                           (presence_penalties t) (frequency_penalties t)
                           (repetition_penalties t)),
                 \<lambda>l. apply_temperature l (temperatures t),
                 stage_if (do_top_p_top_k f) (\<lambda>l. apply_top_k_top_p l (top_ps t) (top_ks t)),
                 stage_if (do_top_as f) (\<lambda>l. apply_top_a l (top_as t)),
                 stage_if (do_min_p f) (\<lambda>l. apply_min_p l (min_ps t)),
                 stage_if (do_tfss f) (\<lambda>l. apply_tfs l (tfss t)),
                 stage_if (do_eta_cutoffs f) (\<lambda>l. apply_eta_cutoff l (eta_cutoffs t)),
                 stage_if (do_epsilon_cutoffs f)
                   (\<lambda>l. apply_epsilon_cutoff l (epsilon_cutoffs t)),
                 stage_if (do_typical_ps f) (\<lambda>l. apply_typical_sampling l (typical_ps t)),
                 stage_if (do_quadratic f)
                   (\<lambda>l. apply_quadratic_sampling l (smoothing_factors t)
                           (smoothing_curves t))]
                gated"
proof -
  from min_tokens_gate_effect [OF fits rows total]
  obtain gated where eff: "apply_min_tokens_penalty logits md = Inr gated
           \<and> length gated = length logits
           \<and> (\<forall>r < length logits. \<forall>c < V. gated ! r ! c = NInf \<or> gated ! r ! c = logits ! r ! c)
           \<and> ((\<forall>g \<in> set (seq_groups md). do_sample g \<longrightarrow> min_tokens (sampling_params g) \<le> 0)
                \<longrightarrow> gated = logits)
           \<and> (\<forall>g start rest j d tok.
                 g \<in> set (seq_groups md) \<and> do_sample g \<and> sample_indices g = start # rest
                 \<and> j < length (seq_ids g) \<and> seq_data g (seq_ids g ! j) = Some d
                 \<and> int (length (output_token_ids_array d)) < min_tokens (sampling_params g)
                 \<and> tok \<in> set (all_stop_token_ids (sampling_params g))
                 \<longrightarrow> gated ! (start + j) ! tok = NInf)"
    by (rule exE)
  note gate = eff [THEN conjunct1]
  note len = eff [THEN conjunct2, THEN conjunct1]
  note frame = eff [THEN conjunct2, THEN conjunct2, THEN conjunct1]
  note idle = eff [THEN conjunct2, THEN conjunct2, THEN conjunct2, THEN conjunct1]
  note forced = eff [THEN conjunct2, THEN conjunct2, THEN conjunct2, THEN conjunct2]
  have scen: "\<forall>g start rest j d.
                g \<in> set (seq_groups md) \<and> do_sample g \<and> sample_indices g = start # rest
                \<and> min_tokens (sampling_params g) = 3
                \<and> 0 \<in> set (all_stop_token_ids (sampling_params g))
                \<and> j < length (seq_ids g) \<and> seq_data g (seq_ids g ! j) = Some d
                \<and> length (output_token_ids_array d) = 1
                \<longrightarrow> gated ! (start + j) ! 0 = NInf"
  proof (intro allI impI, elim conjE)
    fix g start rest j d
    assume a: "g \<in> set (seq_groups md)" "do_sample g" "sample_indices g = start # rest"
      "min_tokens (sampling_params g) = 3" "0 \<in> set (all_stop_token_ids (sampling_params g))"
      "j < length (seq_ids g)" "seq_data g (seq_ids g ! j) = Some d"
      "length (output_token_ids_array d) = 1"
    have "int (length (output_token_ids_array d)) < min_tokens (sampling_params g)"
      using a(4,8) by simp
    with a have "g \<in> set (seq_groups md) \<and> do_sample g \<and> sample_indices g = start # rest
                 \<and> j < length (seq_ids g) \<and> seq_data g (seq_ids g ! j) = Some d
                 \<and> int (length (output_token_ids_array d)) < min_tokens (sampling_params g)
                 \<and> 0 \<in> set (all_stop_token_ids (sampling_params g))"
      by simp
    then show "gated ! (start + j) ! 0 = NInf"
      by (rule forced [rule_format])
  qed
  have later: "forward_logits t f md logits
                 = bind (apply_min_tokens_penalty logits md) (run_stages rest)" 
    if "forward_logits t f md logits
          = run_stages ((\<lambda>l. apply_min_tokens_penalty l md) # rest) logits" for rest
    using that by simp
  show ?thesis
    apply (rule exI [of _ gated])
    apply (intro conjI)
         apply (rule gate)
        apply (rule len)
       apply (rule frame)
      apply (rule idle)
     apply (rule scen)
    apply (simp only: later [OF forward_logits_stages] gate bind_Inr)
    done
qed

text \<open>
  C1.  For every batch, the transforms of \<open>forward\<close> are the eleven stages in the order
  minimum-token gate, penalties, temperature, top-k/top-p, top-a, min-p, tail-free
  sampling, eta cutoff, epsilon cutoff, typical sampling, quadratic transform, each
  conditional stage being skipped when its flag is off: the result of \<open>forward\<close>, an error
  included, is the result of running these stages one after the other on the logits.  For
  a batch descriptor that fits the logits tensor, the gate returns a tensor \<open>gated\<close>, which
  is the tensor the ten later stages run on; it differs from the logits only in entries
  set to \<open>-inf\<close>, and not at all when no sampled group has a positive \<open>min_tokens\<close>; and
  for a sampled group with \<open>min_tokens = 3\<close>, stop-token id 0 and a sequence with one
  output token, the entry of that sequence's row at index 0 is \<open>-inf\<close> in \<open>gated\<close>.
\<close>

theorem min_tokens_gate_runs_first:
  "forward_logits t f md logits
     = run_stages
         [\<lambda>l. apply_min_tokens_penalty l md,
          stage_if (do_penalties f)
            (\<lambda>l. apply_penalties l (prompt_tokens t) (output_tokens t)
                    (presence_penalties t) (frequency_penalties t)
                    (repetition_penalties t)),
          \<lambda>l. apply_temperature l (temperatures t),
          stage_if (do_top_p_top_k f) (\<lambda>l. apply_top_k_top_p l (top_ps t) (top_ks t)),
          stage_if (do_top_as f) (\<lambda>l. apply_top_a l (top_as t)),
          stage_if (do_min_p f) (\<lambda>l. apply_min_p l (min_ps t)),
          stage_if (do_tfss f) (\<lambda>l. apply_tfs l (tfss t)),
          stage_if (do_eta_cutoffs f) (\<lambda>l. apply_eta_cutoff l (eta_cutoffs t)),
          stage_if (do_epsilon_cutoffs f)
            (\<lambda>l. apply_epsilon_cutoff l (epsilon_cutoffs t)),
          stage_if (do_typical_ps f) (\<lambda>l. apply_typical_sampling l (typical_ps t)),
          stage_if (do_quadratic f)
            (\<lambda>l. apply_quadratic_sampling l (smoothing_factors t)
                    (smoothing_curves t))]
         logits
   \<and> ((\<forall>g \<in> set (seq_groups md). do_sample g \<longrightarrow>
          sample_indices g \<noteq> [] \<and> (\<forall>sid \<in> set (seq_ids g). seq_data g sid \<noteq> None)
          \<and> hd (sample_indices g) + length (seq_ids g) \<le> length logits
          \<and> (\<forall>tok \<in> set (all_stop_token_ids (sampling_params g)). tok < V))
       \<and> (\<forall>row \<in> set logits. length row = V)
       \<and> sum_list (map (\<lambda>g. length (sample_indices g) + length (prompt_logprob_indices g))
                    (seq_groups md)) = length logits
       \<longrightarrow>
       (\<exists>gated. apply_min_tokens_penalty logits md = Inr gated
          \<and> length gated = length logits
          \<and> (\<forall>r < length logits. \<forall>c < V.
                gated ! r ! c = NInf \<or> gated ! r ! c = logits ! r ! c)
          \<and> ((\<forall>g \<in> set (seq_groups md). do_sample g \<longrightarrow> min_tokens (sampling_params g) \<le> 0)
               \<longrightarrow> gated = logits)
          \<and> (\<forall>g start rest j d.
                g \<in> set (seq_groups md) \<and> do_sample g \<and> sample_indices g = start # rest
                \<and> min_tokens (sampling_params g) = 3
                \<and> 0 \<in> set (all_stop_token_ids (sampling_params g))
                \<and> j < length (seq_ids g) \<and> seq_data g (seq_ids g ! j) = Some d
                \<and> length (output_token_ids_array d) = 1
                \<longrightarrow> gated ! (start + j) ! 0 = NInf)
          \<and> forward_logits t f md logits
            = run_stages
                [stage_if (do_penalties f)
                   (\<lambda>l. apply_penalties l (prompt_tokens t) (output_tokens t)
                           (presence_penalties t) (frequency_penalties t)
                           (repetition_penalties t)),
                 \<lambda>l. apply_temperature l (temperatures t),
                 stage_if (do_top_p_top_k f) (\<lambda>l. apply_top_k_top_p l (top_ps t) (top_ks t)),
                 stage_if (do_top_as f) (\<lambda>l. apply_top_a l (top_as t)),
                 stage_if (do_min_p f) (\<lambda>l. apply_min_p l (min_ps t)),
                 stage_if (do_tfss f) (\<lambda>l. apply_tfs l (tfss t)),
                 stage_if (do_eta_cutoffs f) (\<lambda>l. apply_eta_cutoff l (eta_cutoffs t)),
                 stage_if (do_epsilon_cutoffs f)
                   (\<lambda>l. apply_epsilon_cutoff l (epsilon_cutoffs t)),
                 stage_if (do_typical_ps f) (\<lambda>l. apply_typical_sampling l (typical_ps t)),
                 stage_if (do_quadratic f)
                   (\<lambda>l. apply_quadratic_sampling l (smoothing_factors t)
                           (smoothing_curves t))]
                gated))"
  (is "?order \<and> (?fits \<and> ?rows \<and> ?total \<longrightarrow> ?gate)")
proof (rule conjI)
  show ?order by (rule forward_logits_stages)
next
  show "?fits \<and> ?rows \<and> ?total \<longrightarrow> ?gate"
  proof (intro impI, elim conjE)
    assume "?fits" "?rows" "?total"
    then show ?gate by (rule min_tokens_gate_then_stages)
  qed
qed

theorem min_tokens_gate_runs_first_witness:
  "apply_min_tokens_penalty [[Fin 1, Fin 5, Fin 2]] gate_metadata = Inr [[NInf, Fin 5, Fin 2]]
   \<and> forward_logits tensors0 flags0 gate_metadata [[Fin 1, Fin 5, Fin 2]]
       = Inr [[NInf, Fin 5, Fin 2]]"
proof -
  let ?logits = "[[Fin 1, Fin 5, Fin 2]]"
  let ?d = "\<lparr>prompt_token_ids = [5], output_token_ids_array = [4], cumulative_logprob = Fin 0,
             num_computed_tokens = 1\<rparr>"
  have fits: "(\<forall>g \<in> set (seq_groups gate_metadata). do_sample g \<longrightarrow>
             sample_indices g \<noteq> [] \<and> (\<forall>sid \<in> set (seq_ids g). seq_data g sid \<noteq> None)
             \<and> hd (sample_indices g) + length (seq_ids g) \<le> length ?logits
             \<and> (\<forall>tok \<in> set (all_stop_token_ids (sampling_params g)). tok < 3))
       \<and> (\<forall>row \<in> set ?logits. length row = 3)
       \<and> sum_list (map (\<lambda>g. length (sample_indices g) + length (prompt_logprob_indices g))
                    (seq_groups gate_metadata)) = length ?logits"
    by (simp add: gate_metadata_def gate_group_def group0_def params0_def)
  have scenario: "gate_group \<in> set (seq_groups gate_metadata) \<and> do_sample gate_group
    \<and> sample_indices gate_group = 0 # []
    \<and> min_tokens (sampling_params gate_group) = 3
    \<and> 0 \<in> set (all_stop_token_ids (sampling_params gate_group))
    \<and> 0 < length (seq_ids gate_group) \<and> seq_data gate_group (seq_ids gate_group ! 0) = Some ?d
    \<and> length (output_token_ids_array ?d) = 1"
    by (simp add: gate_metadata_def gate_group_def group0_def params0_def)
  note inst = min_tokens_gate_runs_first [of tensors0 flags0 gate_metadata ?logits 3]
  obtain gated where gated: "apply_min_tokens_penalty ?logits gate_metadata = Inr gated"
    and forced: "\<forall>g start rest j d.
                g \<in> set (seq_groups gate_metadata) \<and> do_sample g
                \<and> sample_indices g = start # rest
                \<and> min_tokens (sampling_params g) = 3
                \<and> 0 \<in> set (all_stop_token_ids (sampling_params g))
                \<and> j < length (seq_ids g) \<and> seq_data g (seq_ids g ! j) = Some d
                \<and> length (output_token_ids_array d) = 1
                \<longrightarrow> gated ! (start + j) ! 0 = NInf"
    using inst fits by blast
  have "gated ! (0 + 0) ! 0 = NInf" using forced scenario by blast
  have ev: "apply_min_tokens_penalty ?logits gate_metadata = Inr [[NInf, Fin 5, Fin 2]]"
    by (simp add: apply_min_tokens_penalty_def gate_metadata_def gate_group_def group0_def
        params0_def)
  then have "forward_logits tensors0 flags0 gate_metadata ?logits = Inr [[NInf, Fin 5, Fin 2]]"
    by (simp add: forward_logits_def flags0_def tensors0_def apply_temperature_def)
  with ev show ?thesis by simp
qed

subsection \<open>Live rows and their probabilities\<close>

lemma is_fin_iff: "is_fin l \<longleftrightarrow> (\<exists>x. l = Fin x)"
  by (cases l) simp_all

lemma live_rowD:
  assumes "live_row row"
  shows "\<And>l. l \<in> set row \<Longrightarrow> l = NInf \<or> is_fin l" and "\<exists>l \<in> set row. is_fin l" and "row \<noteq> []"
  using assms by (auto simp: live_row_def list_all_iff list_ex_iff)

lemma live_rowI:
  assumes "\<And>l. l \<in> set row \<Longrightarrow> l = NInf \<or> is_fin l" and "l0 \<in> set row" and "is_fin l0"
  shows "live_row row"
  using assms by (auto simp: live_row_def list_all_iff list_ex_iff)

lemma live_row_max:
  assumes "live_row row"
  obtains i mx where "argmax row = Inr i" "i < length row" "row ! i = Fin mx"
    "\<And>x. Fin x \<in> set row \<Longrightarrow> x \<le> mx"
proof -
  obtain i where i: "argmax row = Inr i"
    using argmax_nonempty [OF live_rowD(3) [OF assms]] by blast
  note g = argmax_greatest [OF i]
  obtain x0 where x0: "Fin x0 \<in> set row"
    using live_rowD(2) [OF assms] by (auto simp: is_fin_iff)
  then obtain j where j: "j < length row" "row ! j = Fin x0"
    by (auto simp: in_set_conv_nth)
  have "row ! i = NInf \<or> is_fin (row ! i)"
    using live_rowD(1) [OF assms] g by simp
  moreover have "row ! i \<noteq> NInf"
  proof
    assume "row ! i = NInf"
    then have "sort_key_fl (Fin x0) \<le> sort_key_fl NInf"
      using g j by metis
    then show False by simp
  qed
  ultimately obtain mx where mx: "row ! i = Fin mx" by (auto simp: is_fin_iff)
  have "x \<le> mx" if xm: "Fin x \<in> set row" for x
  proof -
    obtain k where "k < length row" "row ! k = Fin x"
      using xm by (auto simp: in_set_conv_nth)
    then have "sort_key_fl (Fin x) \<le> sort_key_fl (Fin mx)"
      using g mx by metis
    then show ?thesis by simp
  qed
  then show ?thesis using that i g mx by blast
qed

lemma fsum_Fin: "fsum (map (\<lambda>x. Fin (f x)) xs) = Fin (sum_list (map f xs))"
  by (induction xs) simp_all

text \<open>The unnormalised weight of an entry of a live row with maximum \<open>mx\<close>.\<close>

lemma exp_shifted_live:
  assumes "live_row row" "argmax row = Inr i" "row ! i = Fin mx"
  shows "exp_shifted row
         = map (\<lambda>l. Fin (case l of Fin x \<Rightarrow> exp (x - mx) | _ \<Rightarrow> 0)) row"
proof -
  have "fexp (fsub l (Fin mx)) = Fin (case l of Fin x \<Rightarrow> exp (x - mx) | _ \<Rightarrow> 0)"
    if "l \<in> set row" for l
    using live_rowD(1) [OF assms(1) that] by (cases l) (simp_all add: fsub_def)
  then show ?thesis
    using assms(2,3) by (simp add: exp_shifted_def row_max_def)
qed

lemma softmax_live:
  assumes "live_row row"
  shows "\<exists>ps. softmax row = map Fin ps \<and> length ps = length row
           \<and> (\<forall>i < length row. 0 \<le> ps ! i \<and> ps ! i \<le> 1 \<and> (ps ! i = 0 \<longleftrightarrow> row ! i = NInf))"
proof -
  obtain i mx where i: "argmax row = Inr i" "i < length row" "row ! i = Fin mx"
    using live_row_max [OF assms] by metis
  define w where "w l = (case l of Fin x \<Rightarrow> exp (x - mx) | _ \<Rightarrow> (0::real))" for l
  define S where "S = sum_list (map w row)"
  have es: "exp_shifted row = map (\<lambda>l. Fin (w l)) row"
    using exp_shifted_live [OF assms i(1,3)] by (simp add: w_def [abs_def])
  have w_nonneg: "0 \<le> w l" for l by (cases l) (simp_all add: w_def)
  have w_le: "w l \<le> S" if "l \<in> set row" for l
    unfolding S_def using that w_nonneg
    by (intro member_le_sum_list) auto
  have "w (row ! i) = 1" by (simp add: w_def i(3))
  then have S_pos: "0 < S" using w_le [of "row ! i"] i(2) by simp
  define ps where "ps = map (\<lambda>l. w l / S) row"
  have "softmax row = map Fin ps"
    using S_pos by (simp add: softmax_def es fsum_Fin S_def [symmetric] ps_def)
  moreover have "length ps = length row" by (simp add: ps_def)
  moreover have "0 \<le> ps ! k \<and> ps ! k \<le> 1" if "k < length row" for k
    using that w_nonneg [of "row ! k"] w_le [of "row ! k"] S_pos by (simp add: ps_def)
  moreover have "ps ! k = 0 \<longleftrightarrow> row ! k = NInf" if "k < length row" for k
  proof -
    have "row ! k = NInf \<or> is_fin (row ! k)"
      using live_rowD(1) [OF assms] that by simp
    then show ?thesis
      using that S_pos by (auto simp: ps_def w_def is_fin_iff)
  qed
  ultimately show ?thesis by blast
qed

lemma log_softmax_live:
  assumes "live_row row"
  shows "\<exists>ls. length ls = length row \<and> length (log_softmax row) = length row
           \<and> (\<forall>i < length row.
                 log_softmax row ! i = (if row ! i = NInf then NInf else Fin (ls ! i)))"
proof -
  obtain i mx where i: "argmax row = Inr i" "i < length row" "row ! i = Fin mx"
    using live_row_max [OF assms] by metis
  define w where "w l = (case l of Fin x \<Rightarrow> exp (x - mx) | _ \<Rightarrow> (0::real))" for l
  define S where "S = sum_list (map w row)"
  have es: "exp_shifted row = map (\<lambda>l. Fin (w l)) row"
    using exp_shifted_live [OF assms i(1,3)] by (simp add: w_def [abs_def])
  have w_nonneg: "0 \<le> w l" for l by (cases l) (simp_all add: w_def)
  have "w (row ! i) \<le> S"
    unfolding S_def using i(2) w_nonneg by (intro member_le_sum_list) auto
  moreover have "w (row ! i) = 1" by (simp add: w_def i(3))
  ultimately have S_pos: "0 < S" by simp
  define ls where "ls = map (\<lambda>l. case l of Fin x \<Rightarrow> x - mx - ln S | _ \<Rightarrow> 0) row"
  have ls: "log_softmax row = map (\<lambda>x. fsub (fsub x (Fin mx)) (Fin (ln S))) row"
    using i S_pos by (simp add: log_softmax_def row_max_def es fsum_Fin S_def [symmetric])
  have "log_softmax row ! k = (if row ! k = NInf then NInf else Fin (ls ! k))"
    if "k < length row" for k
  proof -
    have "row ! k = NInf \<or> is_fin (row ! k)"
      using live_rowD(1) [OF assms] that by simp
    then show ?thesis
      using that by (auto simp: ls ls_def is_fin_iff fsub_def)
  qed
  moreover have "length ls = length row" by (simp add: ls_def)
  moreover have "length (log_softmax row) = length row" by (simp add: ls)
  ultimately show ?thesis by blast
qed

lemma masked_fill_nth:
  assumes "length msk = length row" "k < length row"
  shows "masked_fill row msk ! k = (if msk ! k then NInf else row ! k)"
  using assms by (simp add: masked_fill_def)

lemma masked_fill_length [simp]: "length msk = length row \<Longrightarrow> length (masked_fill row msk) = length row"
  by (simp add: masked_fill_def)

lemma masked_fill_live:
  assumes "live_row row" "length msk = length row" "i < length row" "row ! i \<noteq> NInf"
    "\<not> msk ! i"
  shows "live_row (masked_fill row msk)"
proof (rule live_rowI)
  fix l assume "l \<in> set (masked_fill row msk)"
  then obtain k where k: "k < length row" "l = masked_fill row msk ! k"
    using assms(2) by (auto simp: in_set_conv_nth)
  then show "l = NInf \<or> is_fin l"
    using live_rowD(1) [OF assms(1), of "row ! k"] assms(2) by (simp add: masked_fill_nth)
next
  show "masked_fill row msk ! i \<in> set (masked_fill row msk)"
    using assms(2,3) by simp
  show "is_fin (masked_fill row msk ! i)"
    using live_rowD(1) [OF assms(1), of "row ! i"] assms(2-5) by (simp add: masked_fill_nth)
qed

lemma argmax_probs:
  assumes "probs = map Fin ps" "k < length ps" "0 < ps ! k"
  obtains i where "argmax probs = Inr i" "i < length ps" "0 < ps ! i"
    "\<And>j. j < length ps \<Longrightarrow> ps ! j \<le> ps ! i"
proof -
  have "probs \<noteq> []" using assms by auto
  then obtain i where i: "argmax probs = Inr i" using argmax_nonempty by blast
  note g = argmax_greatest [OF i]
  have ilt: "i < length ps" using g assms(1) by simp
  have le: "ps ! j \<le> ps ! i" if j: "j < length ps" for j
  proof -
    have "j < length probs" using j assms(1) by simp
    then have "sort_key_fl (probs ! j) \<le> sort_key_fl (probs ! i)" using g by blast
    moreover have "probs ! j = Fin (ps ! j)" "probs ! i = Fin (ps ! i)"
      using j ilt assms(1) by simp_all
    ultimately show ?thesis by simp
  qed
  have "0 < ps ! i" using le [OF assms(2)] assms(3) by simp
  then show ?thesis
    using that [OF i ilt] le by simp
qed

lemma probs_of_log_softmax:
  assumes "live_row row"
  shows "\<exists>ps. map fexp (log_softmax row) = map Fin ps \<and> length ps = length row
           \<and> (\<forall>i < length row. 0 \<le> ps ! i \<and> (ps ! i = 0 \<longleftrightarrow> row ! i = NInf))"
proof -
  obtain ls where ls: "length ls = length row" "length (log_softmax row) = length row"
    "\<forall>i < length row. log_softmax row ! i = (if row ! i = NInf then NInf else Fin (ls ! i))"
    using log_softmax_live [OF assms] by blast
  define ps where "ps = map (\<lambda>i. if row ! i = NInf then 0 else exp (ls ! i)) [0 ..< length row]"
  have "map fexp (log_softmax row) = map Fin ps"
    using ls by (intro nth_equalityI) (simp_all add: ps_def)
  moreover have "length ps = length row" by (simp add: ps_def)
  moreover have "0 \<le> ps ! i" if "i < length row" for i using that by (simp add: ps_def)
  moreover have "ps ! i = 0 \<longleftrightarrow> row ! i = NInf" if "i < length row" for i
    using that by (simp add: ps_def)
  ultimately show ?thesis by blast
qed

lemma live_row_positive:
  assumes "live_row row" "length ps = length row"
    "\<forall>i < length row. 0 \<le> ps ! i \<and> (ps ! i = 0 \<longleftrightarrow> row ! i = NInf)"
  shows "\<exists>k < length ps. 0 < (ps ! k :: real)"
proof -
  obtain l where "l \<in> set row" "is_fin l" using live_rowD(2) [OF assms(1)] by blast
  then obtain k where k: "k < length row" "row ! k = l" by (auto simp: in_set_conv_nth)
  then have "ps ! k \<noteq> 0" using assms(3) \<open>is_fin l\<close> by auto
  then have "0 < ps ! k" using assms(3) k(1) by (simp add: less_le)
  then show ?thesis using k(1) assms(2) by auto
qed

subsection \<open>Filters that exempt the \<open>argmax\<close>\<close>

lemma epsilon_cutoff_row_live:
  assumes "live_row row"
  shows "\<exists>out. epsilon_cutoff_row row eps = Inr out \<and> length out = length row \<and> live_row out"
proof -
  obtain ps where ps: "softmax row = map Fin ps" "length ps = length row"
    "\<forall>i < length row. 0 \<le> ps ! i \<and> ps ! i \<le> 1 \<and> (ps ! i = 0 \<longleftrightarrow> row ! i = NInf)"
    using softmax_live [OF assms] by blast
  obtain k where k: "k < length ps" "0 < ps ! k"
    using live_row_positive [OF assms ps(2)] ps(3) by blast
  obtain i where i: "argmax (softmax row) = Inr i" "i < length ps" "0 < ps ! i"
    using argmax_probs [OF ps(1) k] by blast
  let ?msk = "(map (\<lambda>q. flt q (Fin eps)) (softmax row))[i := False]"
  have "row ! i \<noteq> NInf" using ps(3) i ps(2) by auto
  then have "live_row (masked_fill row ?msk)"
    using i ps(1,2) by (intro masked_fill_live [OF assms, of _ i]) simp_all
  then show ?thesis
    using i ps(1,2) by (simp add: epsilon_cutoff_row_def Let_def)
qed

lemma eta_cutoff_row_live:
  assumes "live_row row"
  shows "\<exists>out. eta_cutoff_row row eta = Inr out \<and> length out = length row \<and> live_row out"
proof -
  obtain ps where ps: "map fexp (log_softmax row) = map Fin ps" "length ps = length row"
    "\<forall>i < length row. 0 \<le> ps ! i \<and> (ps ! i = 0 \<longleftrightarrow> row ! i = NInf)"
    using probs_of_log_softmax [OF assms] by blast
  obtain k where k: "k < length ps" "0 < ps ! k"
    using live_row_positive [OF assms ps(2)] ps(3) by blast
  obtain i where i: "argmax (map fexp (log_softmax row)) = Inr i" "i < length ps" "0 < ps ! i"
    using argmax_probs [OF ps(1) k] by blast
  define eps where
    "eps = fmin (Fin eta) (fmul (fsqrt (Fin eta))
             (fexp (nansum (map (\<lambda>(q, s). fmul q s)
                              (zip (map fexp (log_softmax row)) (log_softmax row))))))"
  let ?msk = "(map (\<lambda>q. flt q eps) (map fexp (log_softmax row)))[i := False]"
  have "row ! i \<noteq> NInf" using ps(3) i ps(2) by auto
  moreover have "length ?msk = length row" using ps(1,2) by (metis length_list_update length_map)
  ultimately have "live_row (masked_fill row ?msk)"
    using i ps(2) by (intro masked_fill_live [OF assms, of _ i]) simp_all
  then show ?thesis
    using i \<open>length ?msk = length row\<close>
    by (simp add: eta_cutoff_row_def Let_def eps_def)
qed

subsection \<open>Filters without an exemption\<close>

lemma row_max_probs:
  assumes "probs = map Fin ps" "argmax probs = Inr i" "i < length ps"
  shows "row_max probs = Inr (Fin (ps ! i))"
  using assms by (simp add: row_max_def)

lemma min_p_row_live:
  assumes "live_row row" "min_p \<le> 1"
  shows "\<exists>out. min_p_row row min_p = Inr out \<and> length out = length row \<and> live_row out"
proof -
  obtain ps where ps: "softmax row = map Fin ps" "length ps = length row"
    "\<forall>i < length row. 0 \<le> ps ! i \<and> ps ! i \<le> 1 \<and> (ps ! i = 0 \<longleftrightarrow> row ! i = NInf)"
    using softmax_live [OF assms(1)] by blast
  obtain k where k: "k < length ps" "0 < ps ! k"
    using live_row_positive [OF assms(1) ps(2)] ps(3) by blast
  obtain i where i: "argmax (softmax row) = Inr i" "i < length ps" "0 < ps ! i"
    using argmax_probs [OF ps(1) k] by blast
  let ?msk = "map (\<lambda>q. flt q (fmul (Fin min_p) (Fin (ps ! i)))) (softmax row)"
  have "min_p * ps ! i \<le> ps ! i" using assms(2) i(3) by simp
  then have "\<not> ?msk ! i" using i ps(1) by simp
  moreover have "row ! i \<noteq> NInf" using ps(3) i ps(2) by auto
  ultimately have "live_row (masked_fill row ?msk)"
    using i ps(1,2) by (intro masked_fill_live [OF assms(1), of _ i]) simp_all
  then show ?thesis
    using ps(1,2) row_max_probs [OF ps(1) i(1,2)] by (simp add: min_p_row_def Let_def)
qed

lemma top_a_row_live:
  assumes "live_row row" "top_a \<le> 1"
  shows "\<exists>out. top_a_row row top_a = Inr out \<and> length out = length row \<and> live_row out"
proof -
  obtain ps where ps: "softmax row = map Fin ps" "length ps = length row"
    "\<forall>i < length row. 0 \<le> ps ! i \<and> ps ! i \<le> 1 \<and> (ps ! i = 0 \<longleftrightarrow> row ! i = NInf)"
    using softmax_live [OF assms(1)] by blast
  obtain k where k: "k < length ps" "0 < ps ! k"
    using live_row_positive [OF assms(1) ps(2)] ps(3) by blast
  obtain i where i: "argmax (softmax row) = Inr i" "i < length ps" "0 < ps ! i"
    using argmax_probs [OF ps(1) k] by blast
  let ?msk = "map (\<lambda>q. flt q (fmul (fmul (Fin (ps ! i)) (Fin (ps ! i))) (Fin top_a)))
                (softmax row)"
  have "ps ! i \<le> 1" using i(2) ps(2,3) by simp
  moreover have "ps ! i * top_a \<le> ps ! i * 1"
    using assms(2) i(3) by (intro mult_left_mono) simp_all
  ultimately have "ps ! i * top_a \<le> 1" by simp
  then have "ps ! i * (ps ! i * top_a) \<le> ps ! i * 1"
    using i(3) by (intro mult_left_mono) simp_all
  then have "\<not> ?msk ! i" using i ps(1) by (simp add: mult.assoc)
  moreover have "row ! i \<noteq> NInf" using ps(3) i ps(2) by auto
  ultimately have "live_row (masked_fill row ?msk)"
    using i ps(1,2) by (intro masked_fill_live [OF assms(1), of _ i]) simp_all
  then show ?thesis
    using ps(1,2) row_max_probs [OF ps(1) i(1,2)] by (simp add: top_a_row_def Let_def)
qed

subsection \<open>The quadratic transform\<close>

lemma quadratic_row_live:
  assumes "live_row row"
  shows "\<exists>out. quadratic_row row f c = Inr out \<and> length out = length row \<and> live_row out"
proof -
  obtain i mx where i: "argmax row = Inr i" "i < length row" "row ! i = Fin mx"
    using live_row_max [OF assms] by metis
  let ?tr = "\<lambda>l. let d = fsub l (Fin mx)
                  in if l \<noteq> NInf
                     then fadd (fadd (fneg (fmul (Fin ((3 - c) / 2 * f)) (fmul d d)))
                                  (fmul (Fin ((c - 1) / 2 * f)) (fmul (fmul d d) d)))
                            (Fin mx)
                     else l"
  have tr: "?tr l = NInf \<or> is_fin (?tr l)" "is_fin l \<Longrightarrow> is_fin (?tr l)" if "l \<in> set row" for l
    using live_rowD(1) [OF assms that] by (auto simp: is_fin_iff fsub_def Let_def)
  obtain l0 where l0: "l0 \<in> set row" "is_fin l0" using live_rowD(2) [OF assms] by blast
  have "live_row (map ?tr row)"
  proof (rule live_rowI)
    show "\<And>l. l \<in> set (map ?tr row) \<Longrightarrow> l = NInf \<or> is_fin l" using tr(1) by auto
    show "?tr l0 \<in> set (map ?tr row)" using l0 by simp
    show "is_fin (?tr l0)" using tr(2) l0 by simp
  qed
  then show ?thesis
    using i assms by (auto simp: quadratic_row_def row_max_def Let_def)
qed

subsection \<open>Undoing a sort\<close>

lemma scatter_fold_unchanged:
  assumes "i \<notin> set idx"
  shows "fold (\<lambda>(i, s) out. out[i := s]) (zip idx src) base ! i = base ! i"
  using assms
proof (induction idx arbitrary: src base)
  case Nil
  show ?case by simp
next
  case (Cons j idx)
  then show ?case by (cases src) auto
qed

lemma scatter_row_length [simp]: "length (scatter_row base idx src) = length base"
proof -
  have "length (fold (\<lambda>(i, s) out. out[i := s]) ps base) = length base" for ps :: "(nat \<times> 'a) list"
    by (induction ps arbitrary: base) auto
  then show ?thesis by (simp add: scatter_row_def)
qed

lemma scatter_row_nth:
  assumes "distinct idx" "length idx = length src" "\<forall>i \<in> set idx. i < length base"
    "q < length idx"
  shows "scatter_row base idx src ! (idx ! q) = src ! q"
  using assms unfolding scatter_row_def
proof (induction idx arbitrary: src base q)
  case Nil
  then show ?case by simp
next
  case (Cons j idx)
  obtain s ss where src: "src = s # ss" using Cons.prems(2) by (cases src) auto
  show ?case
  proof (cases q)
    case 0
    have "j \<notin> set idx" using Cons.prems(1) by simp
    then have "fold (\<lambda>(i, s) out. out[i := s]) (zip idx ss) (base[j := s]) ! j = base[j := s] ! j"
      by (rule scatter_fold_unchanged)
    then show ?thesis using 0 src Cons.prems(3) by simp
  next
    case (Suc q')
    have "fold (\<lambda>(i, s) out. out[i := s]) (zip idx ss) (base[j := s]) ! (idx ! q') = ss ! q'"
      using Cons.prems Suc src by (intro Cons.IH) auto
    then show ?thesis using Suc src by simp
  qed
qed

lemma sort_pairs_onto:
  assumes "i < length row"
  shows "\<exists>q < length row. snd (sort_pairs key row ! q) = i"
proof -
  have "i \<in> set (map snd (sort_pairs key row))"
    using assms sort_pairs_indices_set [where key = key and row = row] by simp
  then obtain q where "q < length (map snd (sort_pairs key row))"
    "map snd (sort_pairs key row) ! q = i"
    unfolding in_set_conv_nth by blast
  then show ?thesis by (intro exI [of _ q]) simp
qed

lemma sort_pairs_idx_nth:
  "q < length row \<Longrightarrow> map snd (sort_pairs key row) ! q = snd (sort_pairs key row ! q)"
  by simp

text \<open>Undoing the sort with the inverse index built by \<open>scatter_\<close>.\<close>

lemma unsort_scatter:
  fixes key :: "fl \<Rightarrow> nat \<times> real" and vals :: "'a list"
  assumes "length vals = length row" "q < length row"
  defines "idx \<equiv> map snd (sort_pairs key row)"
  shows "length (gather_row vals (scatter_row (replicate (length row) 0) idx [0 ..< length row]))
         = length row"
    and "gather_row vals (scatter_row (replicate (length row) 0) idx [0 ..< length row]) ! (idx ! q)
         = vals ! q"
proof -
  let ?n = "length row"
  let ?inv = "scatter_row (replicate ?n 0) idx [0 ..< ?n]"
  have d: "distinct idx" unfolding idx_def by (rule sort_pairs_distinct)
  have r: "\<forall>i \<in> set idx. i < ?n"
    unfolding idx_def using sort_pairs_indices_set [where key = key and row = row] by auto
  have l: "length idx = ?n" by (simp add: idx_def)
  have "?inv ! (idx ! q) = [0 ..< ?n] ! q"
    using d l r assms(2) by (intro scatter_row_nth) simp_all
  then have inv: "?inv ! (idx ! q) = q" using assms(2) by simp
  show "length (gather_row vals ?inv) = ?n" by (simp add: gather_row_def)
  have "idx ! q < ?n" using r l assms(2) by simp
  then show "gather_row vals ?inv ! (idx ! q) = vals ! q"
    using inv by (simp add: gather_row_def)
qed

text \<open>Undoing the sort with \<open>argsort\<close> of the index row.\<close>

lemma argsort_nat_inverse:
  assumes "distinct idx" "set idx = {0 ..< length idx}" "q < length idx"
  shows "argsort_nat idx ! (idx ! q) = q" and "length (argsort_nat idx) = length idx"
proof -
  let ?n = "length idx"
  let ?L = "sort_key fst (zip idx [0 ..< ?n])"
  have len: "length ?L = ?n" by simp
  have "mset (map fst ?L) = mset (map fst (zip idx [0 ..< ?n]))"
    by (metis mset_map mset_sort)
  also have "\<dots> = mset idx" by simp
  also have "\<dots> = mset [0 ..< ?n]"
    using assms(1,2) by (metis distinct_upt set_eq_iff_mset_eq_distinct set_upt)
  finally have "mset (map fst ?L) = mset [0 ..< ?n]" .
  moreover have "sorted (map fst ?L)" by simp
  ultimately have "sort [0 ..< ?n] = map fst ?L"
    by (intro properties_for_sort) simp_all
  then have fsts: "map fst ?L = [0 ..< ?n]"
    by (simp add: sorted_sort_id)
  have iq: "idx ! q < ?n" using assms(2,3) by (metis atLeastLessThan_iff nth_mem)
  have "fst (?L ! (idx ! q)) = idx ! q"
    using fsts iq len by (metis nth_map nth_upt add_0)
  moreover have "?L ! (idx ! q) \<in> set (zip idx [0 ..< ?n])"
    using iq len by (metis nth_mem set_sort)
  then obtain k where k: "k < ?n" "?L ! (idx ! q) = (idx ! k, [0 ..< ?n] ! k)"
    by (auto simp: set_zip)
  ultimately have "idx ! k = idx ! q" by simp
  then have "k = q" using assms(1,3) k(1) by (simp add: nth_eq_iff_index_eq)
  then show "argsort_nat idx ! (idx ! q) = q"
    using k iq by (simp add: argsort_nat_def)
  show "length (argsort_nat idx) = length idx" by (simp add: argsort_nat_def)
qed

lemma unsort_argsort:
  fixes key :: "fl \<Rightarrow> nat \<times> real" and vals :: "'a list"
  assumes "length vals = length row" "q < length row"
  defines "idx \<equiv> map snd (sort_pairs key row)"
  shows "length (gather_row vals (argsort_nat idx)) = length row"
    and "gather_row vals (argsort_nat idx) ! (idx ! q) = vals ! q"
proof -
  have d: "distinct idx" unfolding idx_def by (rule sort_pairs_distinct)
  have l: "length idx = length row" by (simp add: idx_def)
  have s: "set idx = {0 ..< length idx}"
    unfolding idx_def using sort_pairs_indices_set [where key = key and row = row] by simp
  have q: "q < length idx" using assms(2) l by simp
  note inv = argsort_nat_inverse [OF d s q]
  show "length (gather_row vals (argsort_nat idx)) = length row"
    using inv(2) l by (simp add: gather_row_def)
  have "idx ! q < length idx" using s q by (metis atLeastLessThan_iff nth_mem)
  then show "gather_row vals (argsort_nat idx) ! (idx ! q) = vals ! q"
    using inv by (simp add: gather_row_def)
qed

text \<open>A row rebuilt from its sorted and partly masked values is live when one finite
  value is kept.\<close>

lemma unsorted_live:
  assumes live: "live_row row"
    and len: "length vals = length row" "length out = length row"
    and out: "\<And>q. q < length row \<Longrightarrow> out ! (snd (sort_pairs key row ! q)) = vals ! q"
    and vals: "\<And>q. q < length row \<Longrightarrow> vals ! q = NInf \<or> vals ! q = fst (sort_pairs key row ! q)"
    and keep: "q0 < length row" "vals ! q0 = fst (sort_pairs key row ! q0)"
      "fst (sort_pairs key row ! q0) \<noteq> NInf"
  shows "live_row out"
proof (rule live_rowI)
  have elem: "fst (sort_pairs key row ! q) = NInf \<or> is_fin (fst (sort_pairs key row ! q))"
    if "q < length row" for q
    using sort_pairs_nth [OF that, where key = key] live_rowD(1) [OF live] by simp
  fix l assume "l \<in> set out"
  then obtain i where i: "i < length row" "l = out ! i"
    using len by (auto simp: in_set_conv_nth)
  obtain q where q: "q < length row" "snd (sort_pairs key row ! q) = i"
    using sort_pairs_onto [OF i(1)] by blast
  show "l = NInf \<or> is_fin l"
    using out [OF q(1)] vals [OF q(1)] elem [OF q(1)] q(2) i(2) by auto
next
  let ?i = "snd (sort_pairs key row ! q0)"
  have "?i < length row" by (rule sort_pairs_nth(1) [OF keep(1)])
  then show "out ! ?i \<in> set out" using len by simp
  have "fst (sort_pairs key row ! q0) = NInf \<or> is_fin (fst (sort_pairs key row ! q0))"
    using sort_pairs_nth [OF keep(1), where key = key] live_rowD(1) [OF live] by simp
  then show "is_fin (out ! ?i)"
    using out [OF keep(1)] keep by simp
qed

subsection \<open>Filters that exempt a boundary token of the sorted row\<close>

lemma exp_shifted_length [simp]: "length (exp_shifted xs) = length xs"
  by (cases xs) (simp_all add: exp_shifted_def row_max_def argmax_def)

lemma softmax_length [simp]: "length (softmax xs) = length xs"
  by (simp add: softmax_def)

lemma cumsum_from_length [simp]: "length (cumsum_from a xs) = length xs"
  by (induction xs arbitrary: a) simp_all

lemma cumsum_length [simp]: "length (cumsum xs) = length xs"
  by (simp add: cumsum_def)

lemma diff_length [simp]: "length (diff xs) = length xs - 1"
  by (simp add: diff_def)

lemma sorted_has_finite:
  assumes "live_row row"
  shows "\<exists>q < length row. is_fin (fst (sort_pairs key row ! q))"
proof -
  obtain l where "l \<in> set row" "is_fin l" using live_rowD(2) [OF assms] by blast
  then obtain i where i: "i < length row" "row ! i = l" by (auto simp: in_set_conv_nth)
  obtain q where q: "q < length row" "snd (sort_pairs key row ! q) = i"
    using sort_pairs_onto [OF i(1)] by blast
  have "fst (sort_pairs key row ! q) = l"
    using sort_pairs_nth(2) [OF q(1), where key = key] q(2) i(2) by simp
  then show ?thesis using q(1) \<open>is_fin l\<close> by auto
qed

lemma key_above_finite:
  assumes "is_fin a" "sort_key_fl a \<le> sort_key_fl b"
  shows "b \<noteq> NInf"
  using assms by (cases a; cases b) auto

lemma top_k_top_p_row_live:
  assumes "live_row row" "1 \<le> k" "k \<le> int (length row)"
  shows "\<exists>out. top_k_top_p_row row p k = Inr out \<and> length out = length row \<and> live_row out"
proof -
  let ?n = "length row"
  let ?sp = "sort_pairs sort_key_fl row"
  let ?ls = "map fst ?sp" and ?idx = "map snd ?sp"
  have n: "0 < ?n" using live_rowD(3) [OF assms(1)] by simp
  define kq where "kq = nat (int ?n - k)"
  have kq: "kq < ?n" "\<not> (int ?n - k < 0 \<or> int ?n \<le> int ?n - k)"
    using assms(2,3) n by (auto simp: kq_def)
  define kth where "kth = ?ls ! kq"
  define ls1 where "ls1 = masked_fill ?ls (map (\<lambda>v. flt v kth) ?ls)"
  define mp where "mp = (map (\<lambda>s. fle s (Fin (1 - p))) (cumsum (softmax ls1)))[?n - 1 := False]"
  define ls2 where "ls2 = masked_fill ls1 mp"
  define out where "out = gather_row ls2 (scatter_row (replicate ?n 0) ?idx [0 ..< ?n])"
  have run: "top_k_top_p_row row p k = Inr out"
    using kq(2) by (simp add: top_k_top_p_row_def Let_def out_def ls2_def mp_def ls1_def kth_def kq_def)
  have l1: "length ls1 = ?n" by (simp add: ls1_def)
  have lm: "length mp = ?n" by (simp add: mp_def l1)
  have l2: "length ls2 = ?n" by (simp add: ls2_def l1 lm)
  have ls1_nth: "ls1 ! q = (if flt (?ls ! q) kth then NInf else ?ls ! q)" if "q < ?n" for q
    using that by (simp add: ls1_def masked_fill_nth)
  have ls2_nth: "ls2 ! q = (if mp ! q then NInf else ls1 ! q)" if "q < ?n" for q
    using that by (simp add: ls2_def masked_fill_nth l1 lm)
  have vals: "ls2 ! q = NInf \<or> ls2 ! q = fst (?sp ! q)" if "q < ?n" for q
    using that by (simp add: ls2_nth ls1_nth)
  let ?q0 = "?n - 1"
  have q0: "?q0 < ?n" using n by simp
  have "sort_key_fl (fst (?sp ! kq)) \<le> sort_key_fl (fst (?sp ! ?q0))"
    using kq(1) q0 by (intro sort_pairs_mono) simp_all
  then have "\<not> flt (?ls ! ?q0) kth"
    using flt_key [of "?ls ! ?q0" kth] kq(1) q0 by (auto simp: kth_def simp del: sort_key_fl.simps)
  moreover have "\<not> mp ! ?q0" using q0 by (simp add: mp_def l1)
  ultimately have keep: "ls2 ! ?q0 = fst (?sp ! ?q0)"
    using q0 by (simp add: ls2_nth ls1_nth)
  obtain q where q: "q < ?n" "is_fin (fst (?sp ! q))"
    using sorted_has_finite [OF assms(1)] by blast
  have "sort_key_fl (fst (?sp ! q)) \<le> sort_key_fl (fst (?sp ! ?q0))"
    using q(1) q0 by (intro sort_pairs_mono) simp_all
  then have fin: "fst (?sp ! ?q0) \<noteq> NInf" using key_above_finite [OF q(2)] by blast
  have lo: "length out = ?n"
    unfolding out_def using unsort_scatter(1) [OF l2 q0] .
  have on: "out ! (snd (?sp ! q)) = ls2 ! q" if "q < ?n" for q
    unfolding out_def using unsort_scatter(2) [OF l2 that, where key = sort_key_fl] that by simp
  have "live_row out"
    by (rule unsorted_live [OF assms(1) l2 lo on vals q0 keep fin])
  then show ?thesis using run lo by blast
qed

lemma tfs_row_live:
  assumes "live_row row" "2 \<le> length row"
  shows "\<exists>out. tfs_row row tfs = Inr out \<and> length out = length row \<and> live_row out"
proof -
  let ?n = "length row"
  let ?sp = "sort_pairs sort_key_desc row"
  let ?ls = "map fst ?sp" and ?idx = "map snd ?sp"
  define d2 where "d2 = map fabs (diff (diff (softmax ?ls)))"
  define msk where
    "msk = [False] @ map (\<lambda>c. fgt c (Fin tfs)) (cumsum (map (\<lambda>d. fdiv d (fsum d2)) d2)) @ [True]"
  define vals where "vals = masked_fill ?ls msk"
  define out where "out = gather_row vals (argsort_nat ?idx)"
  have lm: "length msk = ?n" using assms(2) by (auto simp: msk_def d2_def)
  have run: "tfs_row row tfs = Inr out"
    using lm by (simp add: tfs_row_def Let_def out_def vals_def msk_def d2_def)
  have lv: "length vals = ?n" by (simp add: vals_def lm)
  have vn: "vals ! q = (if msk ! q then NInf else ?ls ! q)" if "q < ?n" for q
    using that by (simp add: vals_def masked_fill_nth lm)
  have vals: "vals ! q = NInf \<or> vals ! q = fst (?sp ! q)" if "q < ?n" for q
    using that by (simp add: vn)
  have q0: "0 < ?n" using assms(2) by arith
  have keep: "vals ! 0 = fst (?sp ! 0)" using vn [OF q0] q0 by (simp add: msk_def)
  obtain q where q: "q < ?n" "is_fin (fst (?sp ! q))"
    using sorted_has_finite [OF assms(1)] by blast
  have "sort_key_desc (fst (?sp ! 0)) \<le> sort_key_desc (fst (?sp ! q))"
    using q(1) by (intro sort_pairs_mono) simp_all
  then have "sort_key_fl (fst (?sp ! q)) \<le> sort_key_fl (fst (?sp ! 0))"
    by (simp add: sort_key_desc_le del: sort_key_fl.simps sort_key_desc.simps)
  then have fin: "fst (?sp ! 0) \<noteq> NInf" using key_above_finite [OF q(2)] by blast
  have lo: "length out = ?n"
    unfolding out_def using unsort_argsort(1) [OF lv q0] .
  have on: "out ! (snd (?sp ! q)) = vals ! q" if "q < ?n" for q
    unfolding out_def using unsort_argsort(2) [OF lv that, where key = sort_key_desc] that by simp
  have "live_row out"
    by (rule unsorted_live [OF assms(1) lv lo on vals q0 keep fin])
  then show ?thesis using run lo by blast
qed

subsection \<open>Typical sampling\<close>

lemma nansum_fin:
  assumes "\<forall>x \<in> set xs. x = NaN \<or> is_fin x"
  shows "is_fin (nansum xs)"
proof -
  have "is_fin (fsum ys)" if "\<forall>y \<in> set ys. is_fin y" for ys
    using that by (induction ys) (auto simp: is_fin_iff)
  then show ?thesis
    using assms unfolding nansum_def by (intro \<open>\<And>ys. \<forall>y \<in> set ys. is_fin y \<Longrightarrow> is_fin (fsum ys)\<close>) auto
qed

lemma typical_row_live:
  assumes "live_row row"
  shows "\<exists>out. typical_row row typical_p = Inr out \<and> length out = length row \<and> live_row out"
proof -
  let ?n = "length row"
  let ?sh = "log_softmax row"
  let ?probs = "map fexp ?sh"
  obtain ls where ls: "length ls = ?n" "length ?sh = ?n"
    "\<forall>i < ?n. ?sh ! i = (if row ! i = NInf then NInf else Fin (ls ! i))"
    using log_softmax_live [OF assms] by blast
  define ne where "ne = nansum (map (\<lambda>(q, s). fmul q s) (zip ?probs ?sh))"
  have "\<forall>x \<in> set (map (\<lambda>(q, s). fmul q s) (zip ?probs ?sh)). x = NaN \<or> is_fin x"
  proof
    fix x assume "x \<in> set (map (\<lambda>(q, s). fmul q s) (zip ?probs ?sh))"
    then obtain i where i: "i < ?n" "x = fmul (fexp (?sh ! i)) (?sh ! i)"
      using ls(2) by (auto simp: in_set_conv_nth)
    then show "x = NaN \<or> is_fin x" using ls(3) by auto
  qed
  then obtain e where e: "ne = Fin e"
    using nansum_fin unfolding ne_def is_fin_iff by blast
  define devs where "devs = map (\<lambda>s. fabs (fsub ne s)) ?sh"
  have ld: "length devs = ?n" by (simp add: devs_def ls(2))
  have dv: "devs ! i = (if row ! i = NInf then PInf else Fin \<bar>e - ls ! i\<bar>)" if "i < ?n" for i
    using that ls(2,3) by (simp add: devs_def e fsub_def)
  let ?sp = "sort_pairs sort_key_fl devs"
  define indices where "indices = map snd ?sp"
  have li: "length indices = ?n" by (simp add: indices_def ld)
  have di: "distinct indices" unfolding indices_def by (rule sort_pairs_distinct)
  have ri: "\<forall>i \<in> set indices. i < ?n"
    unfolding indices_def using sort_pairs_indices_set [where key = sort_key_fl and row = devs] ld
    by auto
  have n: "0 < ?n" using live_rowD(3) [OF assms] by simp
  define tms where
    "tms = map (\<lambda>c. fge c (Fin typical_p)) (cumsum (gather_row ?probs indices))"
  define tms1 where "tms1 = (case tms of [] \<Rightarrow> [] | _ # ms \<Rightarrow> False # ms)"
  define typ_mask where "typ_mask = scatter_row tms1 indices tms1"
  have lt: "length tms = ?n" by (simp add: tms_def gather_row_def li)
  have lt1: "length tms1 = ?n" "\<not> tms1 ! 0"
    using lt n by (cases tms; simp add: tms1_def)+
  have ltm: "length typ_mask = ?n" by (simp add: typ_mask_def lt1)
  have run: "typical_row row typical_p = Inr (masked_fill row typ_mask)"
    by (simp add: typical_row_def Let_def typ_mask_def tms1_def tms_def indices_def devs_def
        ne_def)
  let ?i0 = "indices ! 0"
  have i0: "?i0 < ?n" using ri li n by simp
  have "typ_mask ! ?i0 = tms1 ! 0"
    unfolding typ_mask_def using di li lt1(1) ri n by (intro scatter_row_nth) simp_all
  then have unmasked: "\<not> typ_mask ! ?i0" using lt1(2) by simp
  obtain l where l: "l \<in> set row" "is_fin l" using live_rowD(2) [OF assms] by blast
  obtain j where j0: "j < ?n" "row ! j = l" using l(1) unfolding in_set_conv_nth by blast
  have "l \<noteq> NInf" using l(2) by auto
  then have j: "j < ?n" "row ! j \<noteq> NInf" using j0 by simp_all
  obtain q where q: "q < length devs" "snd (?sp ! q) = j"
    using sort_pairs_onto [of j devs sort_key_fl] j(1) ld by auto
  have "sort_key_fl (fst (?sp ! 0)) \<le> sort_key_fl (fst (?sp ! q))"
    using q(1) by (intro sort_pairs_mono) simp_all
  moreover have "fst (?sp ! q) = devs ! j"
    using sort_pairs_nth(2) [OF q(1), where key = sort_key_fl] q(2) by simp
  moreover have "fst (?sp ! 0) = devs ! ?i0"
    using sort_pairs_nth(2) [of 0 devs sort_key_fl] n ld by (simp add: indices_def)
  ultimately have "sort_key_fl (devs ! ?i0) \<le> sort_key_fl (devs ! j)" by simp
  then have "row ! ?i0 \<noteq> NInf"
    using dv [OF i0] dv [OF j(1)] j(2) by (auto split: if_splits)
  then have "live_row (masked_fill row typ_mask)"
    using i0 ltm unmasked by (intro masked_fill_live [OF assms, of _ ?i0]) simp_all
  then show ?thesis using run ltm by simp
qed

subsection \<open>C3: tail-free sampling\<close>










subsection \<open>C2: the pipeline keeps a token in every row\<close>

lemma mapM_all:
  assumes "\<forall>x \<in> set xs. \<exists>y. f x = Inr y \<and> P y"
  shows "\<exists>ys. mapM f xs = Inr ys \<and> length ys = length xs \<and> (\<forall>y \<in> set ys. P y)"
  using assms
proof (induction xs)
  case Nil
  show ?case by simp
next
  case (Cons x xs)
  obtain y where y: "f x = Inr y" "P y" using Cons.prems by auto
  obtain ys where ys: "mapM f xs = Inr ys" "length ys = length xs" "\<forall>y \<in> set ys. P y"
    using Cons.IH Cons.prems by auto
  show ?case using y ys by (intro exI [of _ "y # ys"]) simp
qed

lemma run_stages_append:
  "run_stages (xs @ ys) x = bind (run_stages xs x) (run_stages ys)"
proof (induction xs arbitrary: x)
  case Nil
  show ?case by simp
next
  case (Cons s xs)
  show ?case by (cases "s x") (simp_all add: Cons.IH)
qed

lemma log_softmax_length [simp]: "length (log_softmax xs) = length xs"
  by (cases xs) (simp_all add: log_softmax_def row_max_def argmax_def)

lemma row_max_nonempty: "xs \<noteq> [] \<Longrightarrow> \<exists>m. row_max xs = Inr m"
  using argmax_nonempty [of xs] by (auto simp: row_max_def)

lemma top_k_top_p_row_total:
  assumes "1 \<le> k" "k \<le> int (length row)"
  shows "\<exists>out. top_k_top_p_row row p k = Inr out \<and> length out = length row"
proof -
  have "\<not> (int (length row) - k < 0 \<or> int (length row) \<le> int (length row) - k)"
    using assms by simp
  then show ?thesis
    by (simp add: top_k_top_p_row_def Let_def gather_row_def)
qed

lemma top_a_row_total:
  assumes "row \<noteq> []"
  shows "\<exists>out. top_a_row row top_a = Inr out \<and> length out = length row"
proof -
  have "softmax row \<noteq> []" using assms by (metis length_0_conv softmax_length)
  then obtain m where "row_max (softmax row) = Inr m" using row_max_nonempty by blast
  then show ?thesis by (simp add: top_a_row_def Let_def)
qed

lemma min_p_row_total:
  assumes "row \<noteq> []"
  shows "\<exists>out. min_p_row row min_p = Inr out \<and> length out = length row"
proof -
  have "softmax row \<noteq> []" using assms by (metis length_0_conv softmax_length)
  then obtain m where "row_max (softmax row) = Inr m" using row_max_nonempty by blast
  then show ?thesis by (simp add: min_p_row_def Let_def)
qed

lemma tfs_row_total:
  assumes "2 \<le> length row"
  shows "\<exists>out. tfs_row row tfs = Inr out \<and> length out = length row"
proof -
  have "Suc (Suc (length row - 2)) = length row" using assms by arith
  then show ?thesis
    by (simp add: tfs_row_def Let_def gather_row_def argsort_nat_def)
qed

lemma eta_cutoff_row_total:
  assumes "row \<noteq> []"
  shows "\<exists>out. eta_cutoff_row row eta = Inr out \<and> length out = length row"
proof -
  have "map fexp (log_softmax row) \<noteq> []"
    using assms by (metis length_0_conv length_map log_softmax_length)
  then obtain i where "argmax (map fexp (log_softmax row)) = Inr i"
    using argmax_nonempty by blast
  then show ?thesis by (simp add: eta_cutoff_row_def Let_def)
qed

lemma epsilon_cutoff_row_total:
  assumes "row \<noteq> []"
  shows "\<exists>out. epsilon_cutoff_row row eps = Inr out \<and> length out = length row"
proof -
  have "softmax row \<noteq> []" using assms by (metis length_0_conv softmax_length)
  then obtain i where "argmax (softmax row) = Inr i" using argmax_nonempty by blast
  then show ?thesis by (simp add: epsilon_cutoff_row_def Let_def)
qed

lemma typical_row_total:
  "\<exists>out. typical_row row typical_p = Inr out \<and> length out = length row"
proof -
  have "length (case xs of [] \<Rightarrow> [] | _ # ms \<Rightarrow> False # ms) = length xs" for xs :: "bool list"
    by (cases xs) simp_all
  then show ?thesis
    by (simp add: typical_row_def Let_def gather_row_def)
qed

lemma quadratic_row_total:
  assumes "row \<noteq> []"
  shows "\<exists>out. quadratic_row row f c = Inr out \<and> length out = length row"
proof -
  obtain m where "row_max row = Inr m" using row_max_nonempty [OF assms] by blast
  then show ?thesis by (simp add: quadratic_row_def Let_def)
qed

lemma stage_if_rows_each:
  assumes "length ps = N"
    and total: "\<And>row q. flag \<Longrightarrow> length row = V \<Longrightarrow> q \<in> set ps
                  \<Longrightarrow> \<exists>out. f row q = Inr out \<and> length out = length row"
    and keep: "\<And>row out. flag \<Longrightarrow> live_row row \<Longrightarrow> length row = V
                  \<Longrightarrow> f row (ps ! i) = Inr out \<Longrightarrow> live_row out"
    and inv: "length l = N \<and> (\<forall>row \<in> set l. length row = V) \<and> i < N \<and> live_row (l ! i)"
  shows "\<exists>out. stage_if flag (\<lambda>l. apply_rows f l ps) l = Inr out \<and> length out = N
           \<and> (\<forall>row \<in> set out. length row = V) \<and> i < N \<and> live_row (out ! i)"
proof (cases flag)
  case False
  then show ?thesis using inv by (simp add: stage_if_def)
next
  case True
  let ?g = "\<lambda>(row, q). f row q"
  let ?P = "\<lambda>y :: fl list. length y = V"
  have each: "\<forall>x \<in> set (zip l ps). \<exists>y. ?g x = Inr y \<and> ?P y"
  proof
    fix x assume x: "x \<in> set (zip l ps)"
    obtain row q where rq: "x = (row, q)" by (cases x)
    have mem: "row \<in> set l" "q \<in> set ps"
      using x rq set_zip_leftD [of row q l ps] set_zip_rightD [of row q l ps] by simp_all
    have r: "length row = V" using inv mem(1) by simp
    obtain out where "f row q = Inr out" "length out = length row"
      using total [OF True r mem(2)] by blast
    then show "\<exists>y. ?g x = Inr y \<and> ?P y" using rq r by simp
  qed
  obtain ys where ys: "mapM ?g (zip l ps) = Inr ys" "length ys = length (zip l ps)"
    "\<forall>y \<in> set ys. ?P y"
    using mapM_all [of "zip l ps" ?g ?P, OF each] by blast
  have run: "apply_rows f l ps = Inr ys"
    using assms(1) inv ys(1) by (simp add: apply_rows_def align_def)
  have len: "length ys = N" using ys(2) assms(1) inv by simp
  have "list_all2 (\<lambda>x y. ?g x = Inr y) (zip l ps) ys"
    using ys(1) by (simp add: mapM_Inr_iff)
  then have "?g (zip l ps ! i) = Inr (ys ! i)"
    using inv assms(1) by (simp add: list_all2_conv_all_nth)
  then have "f (l ! i) (ps ! i) = Inr (ys ! i)"
    using inv assms(1) by simp
  moreover have "length (l ! i) = V" using inv by simp
  ultimately have "live_row (ys ! i)"
    using keep [OF True _ _, of "l ! i" "ys ! i"] inv by simp
  then show ?thesis
    using True run len ys(3) inv by (simp add: stage_if_def)
qed

text \<open>
  The filters on a live row.  Let the first three stages (minimum-token gate, penalties,
  temperature) return a tensor whose rows have \<open>V\<close> entries each, and let row \<open>i\<close> of it be
  live: each entry finite or \<open>-inf\<close>, at least one of them finite.  The other rows are
  arbitrary.  Let the parameter tensors be aligned with the batch, and, for the filters
  that are active, \<open>1 \<le> top_k \<le> V\<close> in every row and \<open>V \<ge> 2\<close> for tail-free sampling
  (otherwise the filter raises an error), and \<open>top_a \<le> 1\<close> and \<open>min_p \<le> 1\<close> in row \<open>i\<close>.
  Then the whole pipeline returns, every row of its result has \<open>V\<close> entries, and row \<open>i\<close>
  of the result is live again.  (Top-k/top-p, tail-free sampling, eta cutoff, epsilon
  cutoff and typical sampling exempt a token of their own; top-a and min-p have no
  exemption and keep the most probable token because of the bounds.  Finite values are
  those of the model of tensor entries, in which no operation overflows.)
\<close>

lemma filters_keep_a_token:
  assumes first: "run_stages
                    [\<lambda>l. apply_min_tokens_penalty l md,
                     stage_if (do_penalties f)
                       (\<lambda>l. apply_penalties l (prompt_tokens t) (output_tokens t)
                               (presence_penalties t) (frequency_penalties t)
                               (repetition_penalties t)),
                     \<lambda>l. apply_temperature l (temperatures t)] logits = Inr scaled"
    and rect: "\<forall>row \<in> set scaled. length row = V"
    and aligned: "length (top_ps t) = length scaled" "length (top_ks t) = length scaled"
      "length (top_as t) = length scaled" "length (min_ps t) = length scaled"
      "length (tfss t) = length scaled" "length (eta_cutoffs t) = length scaled"
      "length (epsilon_cutoffs t) = length scaled" "length (typical_ps t) = length scaled"
      "length (smoothing_factors t) = length scaled"
      "length (smoothing_curves t) = length scaled"
    and top_k: "do_top_p_top_k f \<longrightarrow> (\<forall>k \<in> set (top_ks t). 1 \<le> k \<and> k \<le> int V)"
    and tfs: "do_tfss f \<longrightarrow> 2 \<le> V"
    and row: "i < length scaled" "live_row (scaled ! i)"
    and top_a: "do_top_as f \<longrightarrow> top_as t ! i \<le> 1"
    and min_p: "do_min_p f \<longrightarrow> min_ps t ! i \<le> 1"
  shows "\<exists>out. forward_logits t f md logits = Inr out \<and> length out = length scaled
           \<and> (\<forall>row \<in> set out. length row = V)
           \<and> list_all (\<lambda>l. l = NInf \<or> is_fin l) (out ! i) \<and> list_ex is_fin (out ! i)"
proof -
  let ?N = "length scaled"
  let ?rest =
    "[stage_if (do_top_p_top_k f) (\<lambda>l. apply_top_k_top_p l (top_ps t) (top_ks t)),
      stage_if (do_top_as f) (\<lambda>l. apply_top_a l (top_as t)),
      stage_if (do_min_p f) (\<lambda>l. apply_min_p l (min_ps t)),
      stage_if (do_tfss f) (\<lambda>l. apply_tfs l (tfss t)),
      stage_if (do_eta_cutoffs f) (\<lambda>l. apply_eta_cutoff l (eta_cutoffs t)),
      stage_if (do_epsilon_cutoffs f) (\<lambda>l. apply_epsilon_cutoff l (epsilon_cutoffs t)),
      stage_if (do_typical_ps f) (\<lambda>l. apply_typical_sampling l (typical_ps t)),
      stage_if (do_quadratic f)
        (\<lambda>l. apply_quadratic_sampling l (smoothing_factors t) (smoothing_curves t))]"
  let ?first =
    "[\<lambda>l. apply_min_tokens_penalty l md,
      stage_if (do_penalties f)
        (\<lambda>l. apply_penalties l (prompt_tokens t) (output_tokens t)
                (presence_penalties t) (frequency_penalties t)
                (repetition_penalties t)),
      \<lambda>l. apply_temperature l (temperatures t)]"
  let ?inv = "\<lambda>l. length l = ?N \<and> (\<forall>row \<in> set l. length row = V) \<and> i < ?N \<and> live_row (l ! i)"
  have "forward_logits t f md logits = run_stages (?first @ ?rest) logits"
    by (simp only: forward_logits_stages append.simps)
  also have "\<dots> = bind (run_stages ?first logits) (run_stages ?rest)"
    by (rule run_stages_append)
  also have "\<dots> = run_stages ?rest scaled"
    by (simp only: first bind_Inr)
  finally have split: "forward_logits t f md logits = run_stages ?rest scaled" .
  have "scaled ! i \<in> set scaled" using row(1) by simp
  then have "length (scaled ! i) = V" using rect by blast
  then have V: "0 < V" using live_rowD(3) [OF row(2)] by auto
  have ne: "row \<noteq> []" if "length row = V" for row :: "fl list"
    using that V by auto
  have s1: "\<exists>out. stage_if (do_top_p_top_k f) (\<lambda>l. apply_top_k_top_p l (top_ps t) (top_ks t)) l
              = Inr out \<and> ?inv out"
    if l: "?inv l" for l
  proof -
    have z: "length (zip (top_ps t) (top_ks t)) = ?N" using aligned by simp
    have "\<exists>out. stage_if (do_top_p_top_k f)
                  (\<lambda>l. apply_rows (\<lambda>row (p, k). top_k_top_p_row row p k) l
                         (zip (top_ps t) (top_ks t))) l
            = Inr out \<and> ?inv out"
    proof (rule stage_if_rows_each [OF z _ _ l])
      fix row :: "fl list" and q :: "real \<times> int"
      assume on: "do_top_p_top_k f" and r: "length row = V"
        and q: "q \<in> set (zip (top_ps t) (top_ks t))"
      obtain p k where pk: "q = (p, k)" by (cases q)
      have "k \<in> set (top_ks t)" using q pk by (auto dest: set_zip_rightD)
      then have "1 \<le> k" "k \<le> int (length row)" using top_k on r by auto
      then show "\<exists>out. (case q of (p, k) \<Rightarrow> top_k_top_p_row row p k) = Inr out
                   \<and> length out = length row"
        using top_k_top_p_row_total pk by simp
    next
      fix row out :: "fl list"
      assume on: "do_top_p_top_k f" and r: "live_row row" "length row = V"
        and run: "(case zip (top_ps t) (top_ks t) ! i of (p, k) \<Rightarrow> top_k_top_p_row row p k)
                    = Inr out"
      have "top_ks t ! i \<in> set (top_ks t)" using row(1) aligned(2) by simp
      then have "1 \<le> top_ks t ! i" "top_ks t ! i \<le> int (length row)"
        using top_k on r(2) by auto
      then obtain out' where "top_k_top_p_row row (top_ps t ! i) (top_ks t ! i) = Inr out'"
        "live_row out'"
        using top_k_top_p_row_live [OF r(1)] by blast
      then show "live_row out" using run row(1) aligned(1,2) by simp
    qed
    moreover have "apply_top_k_top_p l (top_ps t) (top_ks t)
                   = apply_rows (\<lambda>row (p, k). top_k_top_p_row row p k) l
                       (zip (top_ps t) (top_ks t))"
      using aligned(1,2) l by (simp add: apply_top_k_top_p_def)
    ultimately show ?thesis by (cases "do_top_p_top_k f") (simp_all add: stage_if_def)
  qed
  have s2: "\<exists>out. stage_if (do_top_as f) (\<lambda>l. apply_top_a l (top_as t)) l
              = Inr out \<and> ?inv out"
    if l: "?inv l" for l
    unfolding apply_top_a_def
  proof (rule stage_if_rows_each [OF aligned(3) _ _ l])
    fix row :: "fl list" and q :: real
    assume "length row = V"
    then show "\<exists>out. top_a_row row q = Inr out \<and> length out = length row"
      using top_a_row_total [OF ne] by blast
  next
    fix row out :: "fl list"
    assume on: "do_top_as f" and r: "live_row row"
      and run: "top_a_row row (top_as t ! i) = Inr out"
    obtain out' where "top_a_row row (top_as t ! i) = Inr out'" "live_row out'"
      using top_a_row_live [OF r] top_a on by blast
    then show "live_row out" using run by simp
  qed
  have s3: "\<exists>out. stage_if (do_min_p f) (\<lambda>l. apply_min_p l (min_ps t)) l
              = Inr out \<and> ?inv out"
    if l: "?inv l" for l
    unfolding apply_min_p_def
  proof (rule stage_if_rows_each [OF aligned(4) _ _ l])
    fix row :: "fl list" and q :: real
    assume "length row = V"
    then show "\<exists>out. min_p_row row q = Inr out \<and> length out = length row"
      using min_p_row_total [OF ne] by blast
  next
    fix row out :: "fl list"
    assume on: "do_min_p f" and r: "live_row row"
      and run: "min_p_row row (min_ps t ! i) = Inr out"
    obtain out' where "min_p_row row (min_ps t ! i) = Inr out'" "live_row out'"
      using min_p_row_live [OF r] min_p on by blast
    then show "live_row out" using run by simp
  qed
  have s4: "\<exists>out. stage_if (do_tfss f) (\<lambda>l. apply_tfs l (tfss t)) l
              = Inr out \<and> ?inv out"
    if l: "?inv l" for l
    unfolding apply_tfs_def
  proof (rule stage_if_rows_each [OF aligned(5) _ _ l])
    fix row :: "fl list" and q :: real
    assume "do_tfss f" "length row = V"
    then show "\<exists>out. tfs_row row q = Inr out \<and> length out = length row"
      using tfs tfs_row_total by blast
  next
    fix row out :: "fl list"
    assume on: "do_tfss f" and r: "live_row row" "length row = V"
      and run: "tfs_row row (tfss t ! i) = Inr out"
    have "2 \<le> length row" using tfs on r(2) by simp
    then obtain out' where "tfs_row row (tfss t ! i) = Inr out'" "live_row out'"
      using tfs_row_live [OF r(1)] by blast
    then show "live_row out" using run by simp
  qed
  have s5: "\<exists>out. stage_if (do_eta_cutoffs f) (\<lambda>l. apply_eta_cutoff l (eta_cutoffs t)) l
              = Inr out \<and> ?inv out"
    if l: "?inv l" for l
    unfolding apply_eta_cutoff_def
  proof (rule stage_if_rows_each [OF aligned(6) _ _ l])
    fix row :: "fl list" and q :: real
    assume "length row = V"
    then show "\<exists>out. eta_cutoff_row row q = Inr out \<and> length out = length row"
      using eta_cutoff_row_total [OF ne] by blast
  next
    fix row out :: "fl list"
    assume r: "live_row row" and run: "eta_cutoff_row row (eta_cutoffs t ! i) = Inr out"
    obtain out' where "eta_cutoff_row row (eta_cutoffs t ! i) = Inr out'" "live_row out'"
      using eta_cutoff_row_live [OF r] by blast
    then show "live_row out" using run by simp
  qed
  have s6: "\<exists>out. stage_if (do_epsilon_cutoffs f)
                    (\<lambda>l. apply_epsilon_cutoff l (epsilon_cutoffs t)) l
              = Inr out \<and> ?inv out"
    if l: "?inv l" for l
    unfolding apply_epsilon_cutoff_def
  proof (rule stage_if_rows_each [OF aligned(7) _ _ l])
    fix row :: "fl list" and q :: real
    assume "length row = V"
    then show "\<exists>out. epsilon_cutoff_row row q = Inr out \<and> length out = length row"
      using epsilon_cutoff_row_total [OF ne] by blast
  next
    fix row out :: "fl list"
    assume r: "live_row row"
      and run: "epsilon_cutoff_row row (epsilon_cutoffs t ! i) = Inr out"
    obtain out' where "epsilon_cutoff_row row (epsilon_cutoffs t ! i) = Inr out'"
      "live_row out'"
      using epsilon_cutoff_row_live [OF r] by blast
    then show "live_row out" using run by simp
  qed
  have s7: "\<exists>out. stage_if (do_typical_ps f) (\<lambda>l. apply_typical_sampling l (typical_ps t)) l
              = Inr out \<and> ?inv out"
    if l: "?inv l" for l
    unfolding apply_typical_sampling_def
  proof (rule stage_if_rows_each [OF aligned(8) _ _ l])
    fix row :: "fl list" and q :: real
    show "\<exists>out. typical_row row q = Inr out \<and> length out = length row"
      by (rule typical_row_total)
  next
    fix row out :: "fl list"
    assume r: "live_row row" and run: "typical_row row (typical_ps t ! i) = Inr out"
    obtain out' where "typical_row row (typical_ps t ! i) = Inr out'" "live_row out'"
      using typical_row_live [OF r] by blast
    then show "live_row out" using run by simp
  qed
  have s8: "\<exists>out. stage_if (do_quadratic f)
                    (\<lambda>l. apply_quadratic_sampling l (smoothing_factors t) (smoothing_curves t)) l
              = Inr out \<and> ?inv out"
    if l: "?inv l" for l
  proof -
    have z: "length (zip (smoothing_factors t) (smoothing_curves t)) = ?N"
      using aligned by simp
    have "\<exists>out. stage_if (do_quadratic f)
                  (\<lambda>l. apply_rows (\<lambda>row (f, c). quadratic_row row f c) l
                         (zip (smoothing_factors t) (smoothing_curves t))) l
            = Inr out \<and> ?inv out"
    proof (rule stage_if_rows_each [OF z _ _ l])
      fix row :: "fl list" and q :: "real \<times> real"
      assume r: "length row = V"
      obtain a c where "q = (a, c)" by (cases q)
      then show "\<exists>out. (case q of (f, c) \<Rightarrow> quadratic_row row f c) = Inr out
                   \<and> length out = length row"
        using quadratic_row_total [OF ne [OF r]] by simp
    next
      fix row out :: "fl list"
      assume r: "live_row row"
        and run: "(case zip (smoothing_factors t) (smoothing_curves t) ! i of
                     (f, c) \<Rightarrow> quadratic_row row f c) = Inr out"
      obtain out' where
        "quadratic_row row (smoothing_factors t ! i) (smoothing_curves t ! i) = Inr out'"
        "live_row out'"
        using quadratic_row_live [OF r] by blast
      then show "live_row out" using run row(1) aligned(9,10) by simp
    qed
    moreover have "apply_quadratic_sampling l (smoothing_factors t) (smoothing_curves t)
                   = apply_rows (\<lambda>row (f, c). quadratic_row row f c) l
                       (zip (smoothing_factors t) (smoothing_curves t))"
      using aligned(9,10) l by (simp add: apply_quadratic_sampling_def)
    ultimately show ?thesis by (cases "do_quadratic f") (simp_all add: stage_if_def)
  qed
  have start: "?inv scaled" using rect row by simp
  obtain l1 where l1: "stage_if (do_top_p_top_k f)
                         (\<lambda>l. apply_top_k_top_p l (top_ps t) (top_ks t)) scaled = Inr l1"
    and k1: "?inv l1"
    using s1 [OF start] by blast
  obtain l2 where l2: "stage_if (do_top_as f) (\<lambda>l. apply_top_a l (top_as t)) l1 = Inr l2"
    and k2: "?inv l2"
    using s2 [OF k1] by blast
  obtain l3 where l3: "stage_if (do_min_p f) (\<lambda>l. apply_min_p l (min_ps t)) l2 = Inr l3"
    and k3: "?inv l3"
    using s3 [OF k2] by blast
  obtain l4 where l4: "stage_if (do_tfss f) (\<lambda>l. apply_tfs l (tfss t)) l3 = Inr l4"
    and k4: "?inv l4"
    using s4 [OF k3] by blast
  obtain l5 where l5: "stage_if (do_eta_cutoffs f)
                         (\<lambda>l. apply_eta_cutoff l (eta_cutoffs t)) l4 = Inr l5"
    and k5: "?inv l5"
    using s5 [OF k4] by blast
  obtain l6 where l6: "stage_if (do_epsilon_cutoffs f)
                         (\<lambda>l. apply_epsilon_cutoff l (epsilon_cutoffs t)) l5 = Inr l6"
    and k6: "?inv l6"
    using s6 [OF k5] by blast
  obtain l7 where l7: "stage_if (do_typical_ps f)
                         (\<lambda>l. apply_typical_sampling l (typical_ps t)) l6 = Inr l7"
    and k7: "?inv l7"
    using s7 [OF k6] by blast
  obtain l8 where l8: "stage_if (do_quadratic f)
                         (\<lambda>l. apply_quadratic_sampling l (smoothing_factors t)
                                 (smoothing_curves t)) l7 = Inr l8"
    and k8: "?inv l8"
    using s8 [OF k7] by blast
  have "run_stages ?rest scaled = Inr l8"
    by (simp only: run_stages.simps l1 l2 l3 l4 l5 l6 l7 l8 bind_Inr)
  then have "forward_logits t f md logits = Inr l8" using split by simp
  moreover have "list_all (\<lambda>l. l = NInf \<or> is_fin l) (l8 ! i) \<and> list_ex is_fin (l8 ! i)"
    using k8 by (simp add: live_row_def)
  ultimately show ?thesis using k8 by blast
qed

lemma filters_keep_a_token_example:
  "\<exists>out. forward_logits
           (tensors_all\<lparr>top_ps := [1 / 2, 1 / 2], top_ks := [2, 2], top_as := [1 / 2, 3],
              min_ps := [1 / 2, 1 / 2], tfss := [1 / 2, 1 / 2], eta_cutoffs := [0, 0],
              epsilon_cutoffs := [1 / 4, 1 / 4], typical_ps := [1 / 2, 1 / 2],
              smoothing_factors := [1, 1], smoothing_curves := [1, 1],
              temperatures := [1, 1]\<rparr>)
           flags_all
           \<lparr>seq_groups = [group0, group0\<lparr>sample_indices := [1]\<rparr>], reuse_sampling_tensors = False,
              skip_sampler_cpu_output = False\<rparr>
           [[Fin 0, Fin 0, NInf], [NaN, NInf, PInf]] = Inr out
     \<and> length out = 2 \<and> (\<forall>row \<in> set out. length row = 3)
     \<and> list_all (\<lambda>l. l = NInf \<or> is_fin l) (out ! 0) \<and> list_ex is_fin (out ! 0)"
proof -
  let ?logits = "[[Fin 0, Fin 0, NInf], [NaN, NInf, PInf]]"
  let ?t = "tensors_all\<lparr>top_ps := [1 / 2, 1 / 2], top_ks := [2, 2], top_as := [1 / 2, 3],
              min_ps := [1 / 2, 1 / 2], tfss := [1 / 2, 1 / 2], eta_cutoffs := [0, 0],
              epsilon_cutoffs := [1 / 4, 1 / 4], typical_ps := [1 / 2, 1 / 2],
              smoothing_factors := [1, 1], smoothing_curves := [1, 1],
              temperatures := [1, 1]\<rparr>"
  let ?f = flags_all
  let ?md = "\<lparr>seq_groups = [group0, group0\<lparr>sample_indices := [1]\<rparr>],
              reuse_sampling_tensors = False, skip_sampler_cpu_output = False\<rparr>"
  have first: "run_stages
                 [\<lambda>l. apply_min_tokens_penalty l ?md,
                  stage_if (do_penalties ?f)
                    (\<lambda>l. apply_penalties l (prompt_tokens ?t) (output_tokens ?t)
                            (presence_penalties ?t) (frequency_penalties ?t)
                            (repetition_penalties ?t)),
                  \<lambda>l. apply_temperature l (temperatures ?t)] ?logits = Inr ?logits"
    by (simp add: apply_min_tokens_penalty_def group0_def params0_def stage_if_def
        flags_all_def tensors_all_def tensors0_def apply_temperature_def align_def)
  have rect: "\<forall>row \<in> set ?logits. length row = 3" by simp
  have aligned: "length (top_ps ?t) = length ?logits" "length (top_ks ?t) = length ?logits"
    "length (top_as ?t) = length ?logits" "length (min_ps ?t) = length ?logits"
    "length (tfss ?t) = length ?logits" "length (eta_cutoffs ?t) = length ?logits"
    "length (epsilon_cutoffs ?t) = length ?logits" "length (typical_ps ?t) = length ?logits"
    "length (smoothing_factors ?t) = length ?logits"
    "length (smoothing_curves ?t) = length ?logits"
    by simp_all
  have top_k: "do_top_p_top_k ?f \<longrightarrow> (\<forall>k \<in> set (top_ks ?t). 1 \<le> k \<and> k \<le> int 3)"
    by simp
  have tfs: "do_tfss ?f \<longrightarrow> 2 \<le> (3::nat)" by simp
  have row: "0 < length ?logits" "live_row (?logits ! 0)"
    by (simp_all add: live_row_def)
  have top_a: "do_top_as ?f \<longrightarrow> top_as ?t ! 0 \<le> 1" by simp
  have min_p: "do_min_p ?f \<longrightarrow> min_ps ?t ! 0 \<le> 1" by simp
  show ?thesis
    using filters_keep_a_token [OF first rect aligned top_k tfs row top_a min_p]
    by (simp add: numeral_2_eq_2)
qed

text \<open>
  C2 (defect of the code).  One row of two equally likely tokens, logits \<open>[0, 0]\<close>, with
  top-a active and \<open>top_a = 3\<close> for the row, every other filter off and temperature 1.
  The threshold of top-a is \<open>top_a\<close> times the square of the greatest probability,
  \<open>3 \<cdot> (1/2)\<^sup>2 = 3/4\<close>, above the probability \<open>1/2\<close> of either token, and \<open>_apply_top_a\<close>
  exempts no token: the pipeline returns the row with both entries \<open>-inf\<close>.  The epsilon
  cutoff, which guards against this with an exemption of the \<open>argmax\<close>, keeps token 0 of
  the same row under the same threshold 3.
\<close>

theorem top_a_masks_every_token:
  "forward_logits tensors_top_a flags_top_a (metadata0 False) [[Fin 0, Fin 0]]
     = Inr [[NInf, NInf]]
   \<and> epsilon_cutoff_row [Fin 0, Fin 0] 3 = Inr [Fin 0, NInf]"
proof -
  have gate: "apply_min_tokens_penalty [[Fin 0, Fin 0]] (metadata0 False) = Inr [[Fin 0, Fin 0]]"
    by (simp add: apply_min_tokens_penalty_def metadata0_def group0_def params0_def)
  have top_a: "top_a_row [Fin 0, Fin 0] 3 = Inr [NInf, NInf]"
    by (simp add: top_a_row_def Let_def softmax_def exp_shifted_def row_max_def argmax_def
        fsub_def masked_fill_def)
  have eps: "epsilon_cutoff_row [Fin 0, Fin 0] 3 = Inr [Fin 0, NInf]"
    by (simp add: epsilon_cutoff_row_def Let_def softmax_def exp_shifted_def row_max_def
        argmax_def fsub_def masked_fill_def)
  have "forward_logits tensors_top_a flags_top_a (metadata0 False) [[Fin 0, Fin 0]]
          = Inr [[NInf, NInf]]"
    by (simp add: forward_logits_def gate flags_top_a_def flags0_def tensors_top_a_def
        tensors0_def apply_temperature_def apply_top_a_def apply_rows_def top_a)
  then show ?thesis using eps by simp
qed

end
